theory Spec2Isabelle
  imports Complex_Main "HOL-Library.Sublist"
begin

section \<open>SultanAnalysisEngine: semantic search over an indexed corpus\<close>

text \<open>
  A shallow embedding of \<^verbatim>\<open>backend/src/engine/SultanAnalysisEngine.ts\<close>.
  JavaScript strings are lists of characters, the source's integer-valued numbers
  (surah numbers, positions, \<^verbatim>\<open>topK\<close>) are \<^typ>\<open>int\<close>, and the numbers of
  embeddings and scores are binary64 floating-point values.  The data table
  \<^verbatim>\<open>QURANIC_DATA\<close> and the remote embedding provider are parameters of the model,
  and so is what the source leaves to its environment: the order in which concurrent
  requests complete, the order in which the engine's sort leaves an array that its
  comparator does not order consistently, and what is printed for an integer beyond the
  safe range of a double.  A call is an \<^verbatim>\<open>async\<close> function: it returns a
  value, throws, or stays pending for ever, and each of the three is a result of the
  model.
\<close>

subsection \<open>Numbers\<close>

text \<open>
  A JavaScript number is an IEEE 754 binary64 value: a finite double, an infinity or
  NaN.  The model keeps one zero: the sign of a zero shows only when one divides by it,
  which the engine never does.  Every arithmetic operation rounds its exact result to
  the nearest double, ties to even.
\<close>

datatype number = Finite real | PosInfinity | NegInfinity | NaN

text \<open>The power of two with an integer exponent.\<close>

definition pow2 :: "int \<Rightarrow> real" where
  "pow2 e = 2 powr real_of_int e"

definition roundTiesToEven :: "real \<Rightarrow> int" where
  "roundTiesToEven q =
     (let f = \<lfloor>q\<rfloor>; d = q - of_int f
      in if d < 1 / 2 then f else if 1 / 2 < d then f + 1 else if even f then f else f + 1)"

text \<open>
  Rounding a real to binary64: 52 fraction bits, exponents from \<open>-1022\<close> (below it
  the subnormal numbers, multiples of \<open>pow2 (- 1074)\<close>) to \<open>1023\<close>, and overflow to
  an infinity once the rounded value reaches \<open>pow2 1024\<close>.
\<close>

definition round64 :: "real \<Rightarrow> number" where
  "round64 x =
     (if x = 0 then Finite 0
      else
        let e = max \<lfloor>log 2 \<bar>x\<bar>\<rfloor> (- 1022);
            ulp = pow2 (e - 52);
            y = of_int (roundTiesToEven (x / ulp)) * ulp
        in if pow2 1024 \<le> \<bar>y\<bar> then (if 0 < x then PosInfinity else NegInfinity) else Finite y)"

fun fneg :: "number \<Rightarrow> number" where
  "fneg (Finite x) = Finite (- x)"
| "fneg PosInfinity = NegInfinity"
| "fneg NegInfinity = PosInfinity"
| "fneg NaN = NaN"

fun fadd :: "number \<Rightarrow> number \<Rightarrow> number" where
  "fadd NaN _ = NaN"
| "fadd _ NaN = NaN"
| "fadd (Finite x) (Finite y) = round64 (x + y)"
| "fadd (Finite x) PosInfinity = PosInfinity"
| "fadd (Finite x) NegInfinity = NegInfinity"
| "fadd PosInfinity (Finite y) = PosInfinity"
| "fadd NegInfinity (Finite y) = NegInfinity"
| "fadd PosInfinity PosInfinity = PosInfinity"
| "fadd NegInfinity NegInfinity = NegInfinity"
| "fadd PosInfinity NegInfinity = NaN"
| "fadd NegInfinity PosInfinity = NaN"

definition fsub :: "number \<Rightarrow> number \<Rightarrow> number" where
  "fsub x y = fadd x (fneg y)"

fun fmul :: "number \<Rightarrow> number \<Rightarrow> number" where
  "fmul NaN _ = NaN"
| "fmul _ NaN = NaN"
| "fmul (Finite x) (Finite y) = round64 (x * y)"
| "fmul (Finite x) PosInfinity = (if x = 0 then NaN else if 0 < x then PosInfinity else NegInfinity)"
| "fmul (Finite x) NegInfinity = (if x = 0 then NaN else if 0 < x then NegInfinity else PosInfinity)"
| "fmul PosInfinity (Finite y) = (if y = 0 then NaN else if 0 < y then PosInfinity else NegInfinity)"
| "fmul NegInfinity (Finite y) = (if y = 0 then NaN else if 0 < y then NegInfinity else PosInfinity)"
| "fmul PosInfinity PosInfinity = PosInfinity"
| "fmul NegInfinity NegInfinity = PosInfinity"
| "fmul PosInfinity NegInfinity = NegInfinity"
| "fmul NegInfinity PosInfinity = NegInfinity"

text \<open>
  Division by a zero gives an infinity whose sign depends on the sign of the zero; the
  model takes the zero as positive there (\<open>cosineSimilarity\<close> guards the only division).
\<close>

fun fdiv :: "number \<Rightarrow> number \<Rightarrow> number" where
  "fdiv NaN _ = NaN"
| "fdiv _ NaN = NaN"
| "fdiv (Finite x) (Finite y) =
     (if y = 0 then (if x = 0 then NaN else if 0 < x then PosInfinity else NegInfinity)
      else round64 (x / y))"
| "fdiv (Finite x) PosInfinity = Finite 0"
| "fdiv (Finite x) NegInfinity = Finite 0"
| "fdiv PosInfinity (Finite y) = (if 0 \<le> y then PosInfinity else NegInfinity)"
| "fdiv NegInfinity (Finite y) = (if 0 \<le> y then NegInfinity else PosInfinity)"
| "fdiv PosInfinity PosInfinity = NaN"
| "fdiv NegInfinity NegInfinity = NaN"
| "fdiv PosInfinity NegInfinity = NaN"
| "fdiv NegInfinity PosInfinity = NaN"

fun fsqrt :: "number \<Rightarrow> number" where
  "fsqrt NaN = NaN"
| "fsqrt NegInfinity = NaN"
| "fsqrt PosInfinity = PosInfinity"
| "fsqrt (Finite x) = (if x < 0 then NaN else round64 (sqrt x))"

text \<open>The comparisons \<^verbatim>\<open>v > 0\<close> and \<^verbatim>\<open>x <= y\<close>: false whenever NaN is involved.\<close>

fun is_positive :: "number \<Rightarrow> bool" where
  "is_positive (Finite x) = (0 < x)"
| "is_positive PosInfinity = True"
| "is_positive NegInfinity = False"
| "is_positive NaN = False"

fun num_le :: "number \<Rightarrow> number \<Rightarrow> bool" where
  "num_le NaN _ = False"
| "num_le _ NaN = False"
| "num_le NegInfinity _ = True"
| "num_le _ PosInfinity = True"
| "num_le (Finite x) (Finite y) = (x \<le> y)"
| "num_le (Finite x) NegInfinity = False"
| "num_le PosInfinity (Finite y) = False"
| "num_le PosInfinity NegInfinity = False"

text \<open>The values an operation can return: the finite ones are multiples of \<open>pow2 (- 1074)\<close>.\<close>

definition is_double :: "number \<Rightarrow> bool" where
  "is_double n = (case n of Finite y \<Rightarrow> (\<exists>k::int. y = of_int k * pow2 (- 1074)) | _ \<Rightarrow> True)"

fun is_negative :: "number \<Rightarrow> bool" where
  "is_negative (Finite x) = (x < 0)"
| "is_negative PosInfinity = False"
| "is_negative NegInfinity = True"
| "is_negative NaN = False"

text \<open>
  \<^verbatim>\<open>Array.prototype.sort\<close> with a comparator.  The sort reads the comparator
  through \<^verbatim>\<open>CompareArrayElements\<close>, where a result of NaN counts as \<open>+0\<close>: the
  comparator puts \<open>a\<close> before \<open>b\<close> when its result for \<open>(a, b)\<close> is negative, after
  \<open>b\<close> when it is positive, and level with \<open>b\<close> when it is zero or NaN.
\<close>

definition comes_before :: "('a \<Rightarrow> 'a \<Rightarrow> number) \<Rightarrow> 'a \<Rightarrow> 'a \<Rightarrow> bool" where
  "comes_before comparefn a b = is_negative (comparefn a b)"

definition comes_after :: "('a \<Rightarrow> 'a \<Rightarrow> number) \<Rightarrow> 'a \<Rightarrow> 'a \<Rightarrow> bool" where
  "comes_after comparefn a b = is_positive (comparefn a b)"

definition level :: "('a \<Rightarrow> 'a \<Rightarrow> number) \<Rightarrow> 'a \<Rightarrow> 'a \<Rightarrow> bool" where
  "level comparefn a b = (\<not> is_negative (comparefn a b) \<and> \<not> is_positive (comparefn a b))"

text \<open>
  The comparison is consistent on the elements of an array when being level is
  reflexive, symmetric and transitive, and coming before and coming after are
  transitive (the conditions of ECMAScript on a consistent comparator, for all
  \<open>a\<close>, \<open>b\<close>, \<open>c\<close> of the array).
\<close>

definition consistent_at :: "('a \<Rightarrow> 'a \<Rightarrow> number) \<Rightarrow> 'a \<Rightarrow> 'a \<Rightarrow> 'a \<Rightarrow> bool" where
  "consistent_at comparefn a b c =
     (level comparefn a a \<and>
      (level comparefn a b \<longrightarrow> level comparefn b a) \<and>
      (level comparefn a b \<and> level comparefn b c \<longrightarrow> level comparefn a c) \<and>
      (comes_before comparefn a b \<and> comes_before comparefn b c \<longrightarrow> comes_before comparefn a c) \<and>
      (comes_after comparefn a b \<and> comes_after comparefn b c \<longrightarrow> comes_after comparefn a c))"

definition consistent_comparator :: "('a \<Rightarrow> 'a \<Rightarrow> number) \<Rightarrow> 'a list \<Rightarrow> bool" where
  "consistent_comparator comparefn xs =
     list_all (\<lambda>a. list_all (\<lambda>b. list_all (\<lambda>c. consistent_at comparefn a b c) xs) xs) xs"

text \<open>
  With a consistent comparison the sort is stable and its result is determined: the
  elements in the order of the comparison, level ones in the order they had.  Every
  engine returns this array; it is computed here by an insertion sort from the right.
\<close>

fun insert_sorted :: "('a \<Rightarrow> 'a \<Rightarrow> number) \<Rightarrow> 'a \<Rightarrow> 'a list \<Rightarrow> 'a list" where
  "insert_sorted comparefn x [] = [x]"
| "insert_sorted comparefn x (y # ys) =
     (if is_positive (comparefn x y) then y # insert_sorted comparefn x ys else x # y # ys)"

definition stable_sort :: "('a \<Rightarrow> 'a \<Rightarrow> number) \<Rightarrow> 'a list \<Rightarrow> 'a list" where
  "stable_sort comparefn xs = foldr (insert_sorted comparefn) xs []"

text \<open>
  With a comparison that is not consistent the order of the result is
  implementation-defined: the array holds the same elements, in an order that the
  engine's algorithm happens to produce.  That choice is a parameter: the element at
  position \<open>i\<close> comes out at the place that its rank \<open>rank i\<close> gives it (elements of
  equal rank in the order they had), so that every rearrangement is the choice of some
  \<open>rank\<close>.
\<close>

definition rearranged :: "(nat \<Rightarrow> nat) \<Rightarrow> 'a list \<Rightarrow> 'a list" where
  "rearranged rank xs = map snd (sort_key (\<lambda>(i, x). rank i) (enumerate 0 xs))"

definition array_sort :: "(nat \<Rightarrow> nat) \<Rightarrow> ('a \<Rightarrow> 'a \<Rightarrow> number) \<Rightarrow> 'a list \<Rightarrow> 'a list" where
  "array_sort rank comparefn xs =
     (if consistent_comparator comparefn xs then stable_sort comparefn xs else rearranged rank xs)"

subsection \<open>Data model\<close>

record verse =
  ayahId :: string
  surahNumber :: int
  surahName :: string
  ayahNumber :: int
  text' :: string

record searchResult =
  verse :: verse
  score :: number

text \<open>One entry of \<^verbatim>\<open>QURANIC_DATA.surahs\<close>; \<^verbatim>\<open>content\<close> is optional.\<close>

record surah =
  number :: int
  name :: string
  content :: "string list option"

subsection \<open>Numbers in template strings\<close>

text \<open>
  \<^verbatim>\<open>`${n}`\<close> renders a number by \<^verbatim>\<open>Number::toString\<close>.  For a safe integer
  (\<^verbatim>\<open>Number.isSafeInteger\<close>: an integer of magnitude at most \<open>2^53 - 1\<close>) the
  result is the decimal expansion, with a leading minus sign when negative, which
  \<open>show_int\<close> computes.  Beyond that range a double does not hold every integer, and
  JavaScript prints the shortest digits that read back as the same double, in exponent
  notation from \<open>10^21\<close> on (\<^verbatim>\<open>1e+21\<close>): what is printed there is a
  parameter of the model, the function \<open>render\<close>.  The other number in an identifier
  is an array position plus one, which is always safe.
\<close>

definition isSafeInteger :: "int \<Rightarrow> bool" where
  "isSafeInteger n = (\<bar>n\<bar> \<le> 2 ^ 53 - 1)"

definition digit :: "nat \<Rightarrow> char" where
  "digit d = char_of (48 + d)"

function show_nat :: "nat \<Rightarrow> string" where
  "show_nat n = (if n < 10 then [digit n] else show_nat (n div 10) @ [digit (n mod 10)])"
  by pat_completeness auto
termination
  by (relation "measure id") auto

declare show_nat.simps [simp del]

definition show_int :: "int \<Rightarrow> string" where
  "show_int i = (if i < 0 then CHR ''-'' # show_nat (nat (- i)) else show_nat (nat i))"

definition number_toString :: "(int \<Rightarrow> string) \<Rightarrow> int \<Rightarrow> string" where
  "number_toString render n = (if isSafeInteger n then show_int n else render n)"

text \<open>Reading a digit string back; used to show that \<^const>\<open>show_int\<close> is injective.\<close>

definition digit_val :: "char \<Rightarrow> nat" where
  "digit_val c = of_char c - 48"

definition read_nat :: "string \<Rightarrow> nat" where
  "read_nat s = foldl (\<lambda>acc c. 10 * acc + digit_val c) 0 s"

definition read_int :: "string \<Rightarrow> int" where
  "read_int s = (case s of
      [] \<Rightarrow> 0
    | c # cs \<Rightarrow> if c = CHR ''-'' then - int (read_nat cs) else int (read_nat (c # cs)))"

subsection \<open>Corpus index\<close>

text \<open>
  \<^verbatim>\<open>const content = surah.content ?? []\<close>, then one verse per line:
  \<^verbatim>\<open>ayahId = `${surah.number}:${idx + 1}`\<close> and \<^verbatim>\<open>ayahNumber = idx + 1\<close>.
\<close>

definition content_or_empty :: "surah \<Rightarrow> string list" where
  "content_or_empty s = (case content s of None \<Rightarrow> [] | Some c \<Rightarrow> c)"

definition make_verse :: "(int \<Rightarrow> string) \<Rightarrow> surah \<Rightarrow> nat \<Rightarrow> string \<Rightarrow> verse" where
  "make_verse render s idx t =
     \<lparr> ayahId = number_toString render (number s) @ '':'' @ show_int (int idx + 1),
       surahNumber = number s,
       surahName = name s,
       ayahNumber = int idx + 1,
       text' = t \<rparr>"

definition surah_verses :: "(int \<Rightarrow> string) \<Rightarrow> surah \<Rightarrow> verse list" where
  "surah_verses render s =
     map (\<lambda>(idx, t). make_verse render s idx t) (enumerate 0 (content_or_empty s))"

text \<open>The top-level loop that fills \<^verbatim>\<open>verses\<close> by \<^verbatim>\<open>push\<close>.\<close>

definition build_verses :: "(int \<Rightarrow> string) \<Rightarrow> surah list \<Rightarrow> verse list" where
  "build_verses render surahs = foldl (\<lambda>verses s. verses @ surah_verses render s) [] surahs"

text \<open>Number of verses contributed by the groups before position \<open>j\<close>.\<close>

definition offset :: "surah list \<Rightarrow> nat \<Rightarrow> nat" where
  "offset surahs j = sum_list (map (\<lambda>s. length (content_or_empty s)) (take j surahs))"

definition has_content :: "surah \<Rightarrow> bool" where
  "has_content s = (content_or_empty s \<noteq> [])"

subsection \<open>Strings\<close>

text \<open>
  \<^verbatim>\<open>String.prototype.trim\<close>, \<^verbatim>\<open>toLowerCase\<close> and \<^verbatim>\<open>includes\<close> on
  8-bit characters: the white space and line terminators below \<open>U+0100\<close> are
  TAB, LF, VT, FF, CR, SPACE and NBSP; the letters with a lower-case form there are
  \<open>A\<close>--\<open>Z\<close> and \<open>U+00C0\<close>--\<open>U+00DE\<close> without the multiplication sign \<open>U+00D7\<close>.
\<close>

definition isWhiteSpace :: "char \<Rightarrow> bool" where
  "isWhiteSpace c = (of_char c \<in> {9, 10, 11, 12, 13, 32, 160 :: nat})"

definition trim :: "string \<Rightarrow> string" where
  "trim s = rev (dropWhile isWhiteSpace (rev (dropWhile isWhiteSpace s)))"

definition lower_char :: "char \<Rightarrow> char" where
  "lower_char c =
     (let n = (of_char c :: nat)
      in if (65 \<le> n \<and> n \<le> 90) \<or> (192 \<le> n \<and> n \<le> 222 \<and> n \<noteq> 215)
         then char_of (n + 32) else c)"

definition toLowerCase :: "string \<Rightarrow> string" where
  "toLowerCase s = map lower_char s"

definition includes' :: "string \<Rightarrow> string \<Rightarrow> bool" where
  "includes' s search = sublist search s"

text \<open>
  \<^verbatim>\<open>xs.slice(0, k)\<close>: a negative \<open>k\<close> counts from the end, so that the last
  \<open>-k\<close> elements are dropped.
\<close>

definition slice0 :: "'a list \<Rightarrow> int \<Rightarrow> 'a list" where
  "slice0 xs k = (if k < 0 then take (nat (int (length xs) + k)) xs else take (nat k) xs)"

subsection \<open>Embedding client\<close>

text \<open>
  What comes back for one \<^verbatim>\<open>POST /api/embed\<close>: \<^verbatim>\<open>fetch\<close> rejects, or the
  status is not a success (status and body text), or the body does not parse as a JSON
  object, or it does and holds an optional \<^verbatim>\<open>embeddings\<close> list.  The source
  passes no abort signal and sets no deadline, so there is one more case,
  \<open>NoResponse\<close>: the response never arrives, or its body never ends, and the call
  that awaits it stays pending for ever.
\<close>

datatype response =
    FetchRejected
  | NotOk nat string
  | InvalidBody
  | Body "number list list option"
  | NoResponse

datatype error =
    FetchFailed
  | OllamaEmbedFailed nat string
  | BodyFailed
  | NoEmbeddingReturned

text \<open>
  The provider is a parameter: its answer to the \<open>n\<close>-th request ever sent (counted
  from 0) with the given input text.
\<close>

type_synonym provider = "nat \<Rightarrow> string \<Rightarrow> response"

text \<open>
  The module state (\<^verbatim>\<open>verses\<close>, \<^verbatim>\<open>embeddingCache\<close>) together with the log of
  the input texts posted to the provider so far, and the requests that are still in
  flight although the call that sent them is over: the cache key and the response of
  each.
\<close>

record world =
  verses :: "verse list"
  embeddingCache :: "string \<rightharpoonup> number list"
  requests :: "string list"
  inFlight :: "(string \<times> response) list"

definition init :: "(int \<Rightarrow> string) \<Rightarrow> surah list \<Rightarrow> world" where
  "init render surahs =
     \<lparr> verses = build_verses render surahs, embeddingCache = Map.empty, requests = [], inFlight = [] \<rparr>"

text \<open>
  Lines 50--56 of the source: from the response to a vector or a thrown error; there is
  neither when no response arrives.
\<close>

fun vector_of :: "response \<Rightarrow> (error + number list) option" where
  "vector_of FetchRejected = Some (Inl FetchFailed)"
| "vector_of (NotOk status body) = Some (Inl (OllamaEmbedFailed status body))"
| "vector_of InvalidBody = Some (Inl BodyFailed)"
| "vector_of (Body None) = Some (Inl NoEmbeddingReturned)"
| "vector_of (Body (Some [])) = Some (Inl NoEmbeddingReturned)"
| "vector_of (Body (Some (vec # _))) = Some (Inr vec)"
| "vector_of NoResponse = None"

text \<open>
  \<^verbatim>\<open>embed\<close> is an async function: it runs synchronously up to \<^verbatim>\<open>await fetch\<close>
  (the cache lookup, and the request when the key is absent) and resumes when the
  response arrives.  A call is either already resolved from the cache or in flight,
  with its cache key and the response that will arrive.
\<close>

datatype call = Resolved "number list" | InFlight string response

definition embed_start :: "provider \<Rightarrow> string \<Rightarrow> world \<Rightarrow> call \<times> world" where
  "embed_start P txt w =
     (let cacheKey = slice0 txt 200
      in case embeddingCache w cacheKey of
           Some cached \<Rightarrow> (Resolved cached, w)
         | None \<Rightarrow> (InFlight cacheKey (P (length (requests w)) txt),
                    w\<lparr>requests := requests w @ [txt]\<rparr>))"

text \<open>
  How a call ends: fulfilled with a vector, rejected with an error, or never
  (\<open>None\<close>); and what its completion does to the cache.
\<close>

fun outcome :: "call \<Rightarrow> (error + number list) option" where
  "outcome (Resolved cached) = Some (Inr cached)"
| "outcome (InFlight cacheKey r) = vector_of r"

fun finish :: "call \<Rightarrow> world \<Rightarrow> world" where
  "finish (Resolved cached) w = w"
| "finish (InFlight cacheKey r) w =
     (case vector_of r of
        Some (Inr vec) \<Rightarrow> w\<lparr>embeddingCache := (embeddingCache w)(cacheKey \<mapsto> vec)\<rparr>
      | _ \<Rightarrow> w)"

definition rejected :: "call \<Rightarrow> bool" where
  "rejected c = (case outcome c of Some (Inl e) \<Rightarrow> True | _ \<Rightarrow> False)"

definition settles :: "call \<Rightarrow> bool" where
  "settles c = (outcome c \<noteq> None)"

text \<open>The requests of the calls of a list that are in flight.\<close>

fun pending :: "call list \<Rightarrow> (string \<times> response) list" where
  "pending [] = []"
| "pending (Resolved cached # cs) = pending cs"
| "pending (InFlight cacheKey r # cs) = (cacheKey, r) # pending cs"

text \<open>
  A call that is awaited alone, as \<^verbatim>\<open>await embed(q)\<close> is.  The result \<open>None\<close>
  stands for a call that never settles: the caller is never resumed.
\<close>

definition embed ::
  "provider \<Rightarrow> string \<Rightarrow> world \<Rightarrow> (error + number list) option \<times> world" where
  "embed P txt w =
     (let (c, w1) = embed_start P txt w
      in case outcome c of
           None \<Rightarrow> (None, w1\<lparr>inFlight := inFlight w1 @ pending [c]\<rparr>)
         | Some r \<Rightarrow> (Some r, finish c w1))"

text \<open>
  A request that was left in flight is answered later all the same, and the rest of its
  \<^verbatim>\<open>embed\<close> then runs: \<open>settle k\<close> is the arrival, between two calls of
  the engine, of the response to the \<open>k\<close>-th request in flight.
\<close>

definition settle :: "nat \<Rightarrow> world \<Rightarrow> world" where
  "settle k w =
     (if k < length (inFlight w) then
        (case inFlight w ! k of
           (cacheKey, r) \<Rightarrow>
             (if vector_of r = None then w
              else finish (InFlight cacheKey r)
                     (w\<lparr>inFlight := take k (inFlight w) @ drop (Suc k) (inFlight w)\<rparr>)))
      else w)"

subsection \<open>Similarity scorer\<close>

fun cosine_loop ::
  "number list \<Rightarrow> number list \<Rightarrow> number \<times> number \<times> number \<Rightarrow> number \<times> number \<times> number" where
  "cosine_loop (x # xs) (y # ys) (dot, normA, normB) =
     cosine_loop xs ys (fadd dot (fmul x y), fadd normA (fmul x x), fadd normB (fmul y y))"
| "cosine_loop _ _ acc = acc"

definition cosineSimilarity :: "number list \<Rightarrow> number list \<Rightarrow> number" where
  "cosineSimilarity a b =
     (if length a \<noteq> length b then Finite 0
      else let (dot, normA, normB) = cosine_loop a b (Finite 0, Finite 0, Finite 0);
               denom = fmul (fsqrt normA) (fsqrt normB)
           in if denom = Finite 0 then Finite 0 else fdiv dot denom)"

text \<open>The squared norm as the loop accumulates it, and the values it can take.\<close>

definition squared_norm :: "number list \<Rightarrow> number" where
  "squared_norm a = foldl (\<lambda>acc x. fadd acc (fmul x x)) (Finite 0) a"

definition norm_acc :: "number \<Rightarrow> bool" where
  "norm_acc n = ((\<exists>r. n = Finite r \<and> 0 \<le> r \<and> r < pow2 1024) \<or> n = PosInfinity \<or> n = NaN)"

subsection \<open>Retrieval orchestrator\<close>

definition MAX_VERSES_TO_EMBED :: int where
  "MAX_VERSES_TO_EMBED = 80"

text \<open>
  \<^verbatim>\<open>searchPool.map(async (v) => ...)\<close> starts every call in pool order before any
  response is handled: all cache lookups and all requests happen first.
\<close>

fun start_all :: "provider \<Rightarrow> string list \<Rightarrow> world \<Rightarrow> call list \<times> world" where
  "start_all P [] w = ([], w)"
| "start_all P (t # ts) w =
     (let (c, w1) = embed_start P t w;
          (cs, w2) = start_all P ts w1
      in (c # cs, w2))"

text \<open>
  The responses then arrive in an order the engine does not control: \<open>arrival i\<close> is
  the time at which the call at position \<open>i\<close> completes, if it ever does.  The calls
  that complete, with their positions, in the order of their completion:
\<close>

definition completion_order :: "(nat \<Rightarrow> nat) \<Rightarrow> call list \<Rightarrow> (nat \<times> call) list" where
  "completion_order arrival cs =
     sort_key (\<lambda>(i, c). arrival i) (filter (\<lambda>(i, c). settles c) (enumerate 0 cs))"

text \<open>The first of them that is rejected, and those that complete before it.\<close>

fun first_rejection :: "(nat \<times> call) list \<Rightarrow> (nat \<times> error) option" where
  "first_rejection [] = None"
| "first_rejection ((i, c) # rest) =
     (case outcome c of Some (Inl e) \<Rightarrow> Some (i, e) | _ \<Rightarrow> first_rejection rest)"

fun before_rejection :: "(nat \<times> call) list \<Rightarrow> (nat \<times> call) list" where
  "before_rejection [] = []"
| "before_rejection ((i, c) # rest) =
     (case outcome c of Some (Inl e) \<Rightarrow> [] | _ \<Rightarrow> (i, c) # before_rejection rest)"

definition fulfilments :: "call list \<Rightarrow> number list list" where
  "fulfilments cs =
     List.map_filter (\<lambda>c. case outcome c of Some (Inr vec) \<Rightarrow> Some vec | _ \<Rightarrow> None) cs"

text \<open>The requests of the calls whose completion has not been handled.\<close>

definition left_in_flight :: "nat list \<Rightarrow> call list \<Rightarrow> (string \<times> response) list" where
  "left_in_flight handled cs =
     pending (map snd (filter (\<lambda>(i, c). i \<notin> set handled) (enumerate 0 cs)))"

text \<open>
  \<^verbatim>\<open>Promise.all\<close> settles as soon as one call is rejected, with that rejection, and
  otherwise once every call is fulfilled, with the values in the order of the calls; it
  stays pending when no call is rejected and some call never completes.  The world
  returned is the one of that moment: the completions that came before have been
  handled, and the other requests are left in flight.
\<close>

definition promise_all ::
  "(nat \<Rightarrow> nat) \<Rightarrow> call list \<Rightarrow> world \<Rightarrow> (error + number list list) option \<times> world" where
  "promise_all arrival cs w =
     (let completed = completion_order arrival cs;
          handled = before_rejection completed;
          w1 = fold finish (map snd handled) w
      in case first_rejection completed of
           Some (i, e) \<Rightarrow>
             (Some (Inl e),
              w1\<lparr>inFlight := inFlight w1 @ left_in_flight (i # map fst handled) cs\<rparr>)
         | None \<Rightarrow>
             if list_all settles cs then (Some (Inr (fulfilments cs)), w1)
             else (None, w1\<lparr>inFlight := inFlight w1 @ left_in_flight (map fst handled) cs\<rparr>))"

text \<open>
  \<^verbatim>\<open>scored.sort((a, b) => b.score - a.score)\<close>, by the sort of the engine.
\<close>

definition sort_scored :: "(nat \<Rightarrow> nat) \<Rightarrow> searchResult list \<Rightarrow> searchResult list" where
  "sort_scored rank scored = array_sort rank (\<lambda>a b. fsub (score b) (score a)) scored"

text \<open>
  The body of the \<^verbatim>\<open>try\<close> block, in two parts: up to
  \<^verbatim>\<open>const scored = await Promise.all(...)\<close>, and then the sort and the slice.
  Either part ends with a value, with a thrown error, or never.
\<close>

definition scored_pool ::
  "provider \<Rightarrow> (nat \<Rightarrow> nat) \<Rightarrow> string \<Rightarrow> verse list \<Rightarrow> world
   \<Rightarrow> (error + searchResult list) option \<times> world" where
  "scored_pool P arrival q searchPool w =
     (case embed P q w of
        (None, w1) \<Rightarrow> (None, w1)
      | (Some (Inl e), w1) \<Rightarrow> (Some (Inl e), w1)
      | (Some (Inr queryEmbedding), w1) \<Rightarrow>
          (let (cs, w2) = start_all P (map text' searchPool) w1
           in case promise_all arrival cs w2 of
                (None, w3) \<Rightarrow> (None, w3)
              | (Some (Inl e), w3) \<Rightarrow> (Some (Inl e), w3)
              | (Some (Inr vecs), w3) \<Rightarrow>
                  (Some (Inr (map2 (\<lambda>v vec. \<lparr>verse = v, score = cosineSimilarity queryEmbedding vec\<rparr>)
                                searchPool vecs)), w3)))"

definition semantic_path ::
  "provider \<Rightarrow> (nat \<Rightarrow> nat) \<Rightarrow> (nat \<Rightarrow> nat) \<Rightarrow> string \<Rightarrow> int \<Rightarrow> verse list \<Rightarrow> world
   \<Rightarrow> (error + searchResult list) option \<times> world" where
  "semantic_path P arrival rank q topK searchPool w =
     (case scored_pool P arrival q searchPool w of
        (None, w') \<Rightarrow> (None, w')
      | (Some (Inl e), w') \<Rightarrow> (Some (Inl e), w')
      | (Some (Inr scored), w') \<Rightarrow> (Some (Inr (slice0 (sort_scored rank scored) topK)), w'))"

text \<open>
  The body of the \<^verbatim>\<open>catch\<close> block; the literal \<^verbatim>\<open>0.9\<close> denotes the double
  nearest to it.
\<close>

definition keyword_match :: "string \<Rightarrow> verse \<Rightarrow> bool" where
  "keyword_match q v =
     (includes' (text' v) q \<or> includes' (toLowerCase (text' v)) (toLowerCase q))"

definition keyword_fallback :: "string \<Rightarrow> int \<Rightarrow> world \<Rightarrow> searchResult list" where
  "keyword_fallback q topK w =
     map (\<lambda>v. \<lparr>verse = v, score = round64 (9 / 10)\<rparr>)
       (slice0 (filter (keyword_match q) (verses w)) topK)"

text \<open>
  \<^verbatim>\<open>semanticSearch\<close>: the \<^verbatim>\<open>catch\<close> turns every error thrown in the
  \<^verbatim>\<open>try\<close> block into the result of the fallback; a \<^verbatim>\<open>try\<close> block that never
  ends leaves the call pending.
\<close>

definition semanticSearch ::
  "provider \<Rightarrow> (nat \<Rightarrow> nat) \<Rightarrow> (nat \<Rightarrow> nat) \<Rightarrow> string \<Rightarrow> int \<Rightarrow> world
   \<Rightarrow> (error + searchResult list) option \<times> world" where
  "semanticSearch P arrival rank query topK w =
     (let q = trim query
      in if q = [] then (Some (Inr []), w)
         else
           (let searchPool = slice0 (verses w) MAX_VERSES_TO_EMBED
            in case semantic_path P arrival rank q topK searchPool w of
                 (None, w') \<Rightarrow> (None, w')
               | (Some (Inr results), w') \<Rightarrow> (Some (Inr results), w')
               | (Some (Inl e), w') \<Rightarrow> (Some (Inr (keyword_fallback q topK w')), w')))"

definition getContextForQuery ::
  "provider \<Rightarrow> (nat \<Rightarrow> nat) \<Rightarrow> (nat \<Rightarrow> nat) \<Rightarrow> string \<Rightarrow> int \<Rightarrow> world
   \<Rightarrow> (error + verse list) option \<times> world" where
  "getContextForQuery P arrival rank query maxVerses w =
     (case semanticSearch P arrival rank query maxVerses w of
        (None, w') \<Rightarrow> (None, w')
      | (Some (Inl e), w') \<Rightarrow> (Some (Inl e), w')
      | (Some (Inr results), w') \<Rightarrow> (Some (Inr (map verse results)), w'))"

text \<open>The default arguments: \<^verbatim>\<open>topK = 10\<close> and \<^verbatim>\<open>maxVerses = 5\<close>.\<close>

definition semanticSearch_default ::
  "provider \<Rightarrow> (nat \<Rightarrow> nat) \<Rightarrow> (nat \<Rightarrow> nat) \<Rightarrow> string \<Rightarrow> world
   \<Rightarrow> (error + searchResult list) option \<times> world" where
  "semanticSearch_default P arrival rank query w = semanticSearch P arrival rank query 10 w"

definition getContextForQuery_default ::
  "provider \<Rightarrow> (nat \<Rightarrow> nat) \<Rightarrow> (nat \<Rightarrow> nat) \<Rightarrow> string \<Rightarrow> world
   \<Rightarrow> (error + verse list) option \<times> world" where
  "getContextForQuery_default P arrival rank query w = getContextForQuery P arrival rank query 5 w"

subsection \<open>The fallback as the specification words it\<close>

text \<open>
  The records whose raw text contains the query as a literal substring, or whose
  lower-cased text contains the lower-cased query, in corpus order, the first \<open>topK\<close>
  of them, each with score \<open>0.9\<close>.
\<close>

definition keyword_search_spec :: "verse list \<Rightarrow> string \<Rightarrow> int \<Rightarrow> searchResult list" where
  "keyword_search_spec vs query topK =
     map (\<lambda>v. \<lparr>verse = v, score = round64 (9 / 10)\<rparr>)
       (take (nat topK)
          (filter (\<lambda>v. sublist query (text' v) \<or> sublist (toLowerCase query) (toLowerCase (text' v))) vs))"

subsection \<open>Sample inputs\<close>

definition example_corpus :: "surah list" where
  "example_corpus =
     [\<lparr>number = 1, name = ''A'', content = Some [''the sun rises'', ''the moon sets'']\<rparr>,
      \<lparr>number = 2, name = ''B'', content = None\<rparr>,
      \<lparr>number = 3, name = ''C'', content = Some [''Stars'']\<rparr>]"

text \<open>
  A group whose number is beyond the safe range, and what JavaScript prints for that
  number.
\<close>

definition huge_corpus :: "surah list" where
  "huge_corpus = [\<lparr>number = 10 ^ 21, name = ''Z'', content = Some [''x'']\<rparr>]"

definition render_1e21 :: "int \<Rightarrow> string" where
  "render_1e21 n = ''1e+21''"

definition twin_corpus :: "surah list" where
  "twin_corpus =
     [\<lparr>number = 1, name = ''A'', content = Some [''x'']\<rparr>,
      \<lparr>number = 1, name = ''B'', content = Some [''y'']\<rparr>]"

definition verse_1_1 :: verse where
  "verse_1_1 = \<lparr>ayahId = ''1:1'', surahNumber = 1, surahName = ''A'', ayahNumber = 1,
                 text' = ''the sun rises''\<rparr>"

definition verse_1_2 :: verse where
  "verse_1_2 = \<lparr>ayahId = ''1:2'', surahNumber = 1, surahName = ''A'', ayahNumber = 2,
                 text' = ''the moon sets''\<rparr>"

definition verse_3_1 :: verse where
  "verse_3_1 = \<lparr>ayahId = ''3:1'', surahNumber = 3, surahName = ''C'', ayahNumber = 1,
                 text' = ''Stars''\<rparr>"

text \<open>
  A corpus of 81 verses: 80 about the night, then one about the sun.
\<close>

definition long_corpus :: "surah list" where
  "long_corpus = [\<lparr>number = 1, name = ''A'', content = Some (replicate 80 ''night'' @ [''the sun rises''])\<rparr>]"

definition night :: "nat \<Rightarrow> verse" where
  "night i = \<lparr>ayahId = ''1:'' @ show_int (int i + 1), surahNumber = 1, surahName = ''A'',
              ayahNumber = int i + 1, text' = ''night''\<rparr>"

text \<open>A provider that is down, one that answers every request, and one whose first answer fails.\<close>

definition provider_down :: provider where
  "provider_down n t = NotOk 500 ''down''"

definition provider_up :: provider where
  "provider_up n t =
     Body (Some [if t = ''sun'' \<or> t = ''the sun rises'' then [Finite 1, Finite 0] else [Finite 0, Finite 1]])"

text \<open>A provider whose vectors for the sun have the one component \<open>pow2 600\<close>.\<close>

definition provider_huge :: provider where
  "provider_huge n t =
     Body (Some [if t = ''sun'' \<or> t = ''the sun rises'' then [Finite (pow2 600)] else [Finite 1]])"

text \<open>
  A provider whose vector for one verse has an infinite component (a JSON number such
  as \<^verbatim>\<open>1e999\<close> parses to Infinity), so that the score of that verse is NaN.
\<close>

definition provider_overflowing :: provider where
  "provider_overflowing n t =
     Body (Some [if t = ''sun'' \<or> t = ''Stars'' then [Finite 1, Finite 0]
                 else if t = ''the moon sets'' then [PosInfinity, Finite 0]
                 else [Finite 0, Finite 1]])"

definition provider_flaky :: provider where
  "provider_flaky n t = (if n = 0 then NotOk 500 ''busy'' else Body (Some [[Finite 1]]))"

text \<open>
  A provider that never answers, one that answers the query and nothing else, and one
  that fails the second request only.
\<close>

definition provider_silent :: provider where
  "provider_silent n t = NoResponse"

definition provider_stalling :: provider where
  "provider_stalling n t = (if n = 0 then Body (Some [[Finite 1]]) else NoResponse)"

definition provider_stumbling :: provider where
  "provider_stumbling n t = (if n = 1 then NotOk 500 ''busy'' else Body (Some [[Finite 1]]))"


section \<open>Properties\<close>

subsection \<open>Rounding to binary64\<close>

lemma pow2_pos: "0 < pow2 e" by (simp add: pow2_def)

lemma pow2_add: "pow2 (a + b) = pow2 a * pow2 b" by (simp add: pow2_def powr_add)

lemma pow2_0: "pow2 0 = 1" by (simp add: pow2_def)

lemma pow2_neg1: "pow2 (- 1) = 1 / 2" by (simp add: pow2_def powr_minus_divide)

lemma pow2_1: "pow2 1 = 2" by (simp add: pow2_def)

lemma pow2_mono: "a \<le> b \<Longrightarrow> pow2 a \<le> pow2 b" by (simp add: pow2_def)

lemma pow2_strict_mono: "a < b \<Longrightarrow> pow2 a < pow2 b" by (simp add: pow2_def)

lemma pow2_diff: "pow2 (a - b) = pow2 a / pow2 b" by (simp add: pow2_def powr_diff)

lemma log_pow2: "log 2 (pow2 e) = of_int e" by (simp add: pow2_def)

lemma pow2_nat: "pow2 (int n) = 2 ^ n"
  by (simp add: pow2_def powr_realpow)

lemma pow2_neg_nat: "pow2 (- int n) = 1 / 2 ^ n"
  by (simp add: pow2_def powr_minus_divide powr_realpow)

lemma rte_zero: "roundTiesToEven 0 = 0" by (simp add: roundTiesToEven_def)

lemma rte_int: "roundTiesToEven (of_int k) = k" by (simp add: roundTiesToEven_def)

lemma rte_small: "\<bar>q\<bar> \<le> 1 / 2 \<Longrightarrow> roundTiesToEven q = 0"
proof -
  assume a: "\<bar>q\<bar> \<le> 1 / 2"
  show ?thesis
  proof (cases "0 \<le> q")
    case True
    then have "\<lfloor>q\<rfloor> = 0" using a by (simp add: floor_eq_iff)
    then show ?thesis using a True by (simp add: roundTiesToEven_def Let_def)
  next
    case False
    then have "\<lfloor>q\<rfloor> = - 1" using a by (simp add: floor_eq_iff)
    then show ?thesis using a False by (simp add: roundTiesToEven_def Let_def)
  qed
qed

lemma rte_near: "\<bar>q - of_int m\<bar> < 1 / 2 \<Longrightarrow> roundTiesToEven q = m"
proof -
  assume a: "\<bar>q - of_int m\<bar> < 1 / 2"
  show ?thesis
  proof (cases "of_int m \<le> q")
    case True
    then have "\<lfloor>q\<rfloor> = m" using a by (simp add: floor_eq_iff)
    then show ?thesis using a True by (simp add: roundTiesToEven_def Let_def)
  next
    case False
    then have "\<lfloor>q\<rfloor> = m - 1" using a by (simp add: floor_eq_iff)
    then show ?thesis using a False by (simp add: roundTiesToEven_def Let_def)
  qed
qed

lemma rte_ge_floor: "\<lfloor>q\<rfloor> \<le> roundTiesToEven q"
  by (simp add: roundTiesToEven_def Let_def)

lemma rte_le_floor: "roundTiesToEven q \<le> \<lfloor>q\<rfloor> + 1"
  by (simp add: roundTiesToEven_def Let_def)

lemma rte_close: "\<bar>of_int (roundTiesToEven q) - q\<bar> \<le> 1 / 2"
proof -
  have "of_int \<lfloor>q\<rfloor> \<le> q" "q < of_int \<lfloor>q\<rfloor> + 1" by linarith+
  then show ?thesis by (auto simp: roundTiesToEven_def Let_def)
qed

lemma rte_nonneg: "0 \<le> q \<Longrightarrow> 0 \<le> roundTiesToEven q"
  using rte_ge_floor [of q] by (simp add: order_trans [of 0 "\<lfloor>q\<rfloor>"])

lemma rte_nonpos: "q \<le> 0 \<Longrightarrow> roundTiesToEven q \<le> 0"
proof -
  assume a: "q \<le> 0"
  show ?thesis
  proof (cases "q = 0")
    case True then show ?thesis by (simp add: rte_zero)
  next
    case False
    with a have "\<lfloor>q\<rfloor> \<le> - 1" by (simp add: floor_le_iff)
    then show ?thesis using rte_le_floor [of q] by linarith
  qed
qed

lemma rte_ge_one: "1 \<le> q \<Longrightarrow> 1 \<le> roundTiesToEven q"
proof -
  assume "1 \<le> q"
  then have "1 \<le> \<lfloor>q\<rfloor>" by (simp add: le_floor_iff)
  then show ?thesis using rte_ge_floor [of q] by linarith
qed

lemma round64_0: "round64 0 = Finite 0" by (simp add: round64_def)

lemma round64_not_NaN: "round64 x \<noteq> NaN"
  by (simp add: round64_def Let_def)

lemma round64_Finite_bound: "round64 x = Finite y \<Longrightarrow> \<bar>y\<bar> < pow2 1024"
  using pow2_pos [of 1024] by (auto simp: round64_def Let_def split: if_splits)

lemma round64_is_double: "is_double (round64 x)"
proof (cases "x = 0")
  case True
  have "(0::real) = of_int 0 * pow2 (- 1074)" by simp
  then show ?thesis using True unfolding is_double_def round64_def by (auto simp del: of_int_0)
next
  case False
  define e where "e = max \<lfloor>log 2 \<bar>x\<bar>\<rfloor> (- 1022)"
  define m where "m = roundTiesToEven (x / pow2 (e - 52))"
  have "0 \<le> e + 1022" by (simp add: e_def)
  then obtain n where n: "e + 1022 = int n" using nonneg_int_cases by blast
  have "pow2 (e - 52) = pow2 (int n) * pow2 (- 1074)"
    using pow2_add [of "int n" "- 1074"] n [symmetric] by (simp add: algebra_simps)
  then have "of_int m * pow2 (e - 52) = of_int (m * 2 ^ n) * pow2 (- 1074)"
    by (simp add: pow2_nat)
  then have "\<exists>k::int. of_int m * pow2 (e - 52) = of_int k * pow2 (- 1074)" by blast
  then show ?thesis using False unfolding is_double_def round64_def Let_def e_def [symmetric] m_def [symmetric]
    by simp
qed

lemma round64_nonneg:
  assumes "0 \<le> x"
  shows "round64 x \<noteq> NegInfinity" and "round64 x = Finite y \<Longrightarrow> 0 \<le> y"
proof -
  have q: "0 \<le> roundTiesToEven (x / pow2 e)" for e
    using assms pow2_pos [of e] by (intro rte_nonneg) simp
  show "round64 x \<noteq> NegInfinity" using assms by (auto simp: round64_def Let_def)
  have "0 \<le> of_int (roundTiesToEven (x / pow2 e)) * pow2 e" for e
    using q [of e] pow2_pos [of e] by (simp add: mult_nonneg_nonneg less_imp_le)
  then show "round64 x = Finite y \<Longrightarrow> 0 \<le> y"
    by (auto simp: round64_def Let_def split: if_splits)
qed

lemma round64_nonpos: "x \<le> 0 \<Longrightarrow> \<not> is_positive (round64 x)"
proof -
  assume a: "x \<le> 0"
  have "roundTiesToEven (x / pow2 e) \<le> 0" for e
    using a pow2_pos [of e] by (intro rte_nonpos) (simp add: divide_nonpos_pos)
  then have "of_int (roundTiesToEven (x / pow2 e)) * pow2 e \<le> 0" for e
    using pow2_pos [of e] by (simp add: mult_nonpos_nonneg less_imp_le)
  then show ?thesis using a by (auto simp: round64_def Let_def not_less)
qed

lemma round64_positive:
  assumes "pow2 (- 1074) \<le> x"
  shows "is_positive (round64 x)"
proof -
  have x: "0 < x" using assms pow2_pos [of "- 1074"] by linarith
  define e where "e = max \<lfloor>log 2 \<bar>x\<bar>\<rfloor> (- 1022)"
  have "pow2 (e - 52) \<le> x"
  proof (cases "\<lfloor>log 2 \<bar>x\<bar>\<rfloor> \<le> - 1022")
    case True
    then have "e = - 1022" by (simp add: e_def)
    then have "pow2 (e - 52) = pow2 (- 1074)" by simp
    then show ?thesis using assms by (simp only:)
  next
    case False
    then have "e = \<lfloor>log 2 x\<rfloor>" using x by (simp add: e_def)
    then have "of_int e \<le> log 2 x" by simp
    then have "pow2 e \<le> x" using x by (simp add: pow2_def le_log_iff)
    then show ?thesis using pow2_mono [of "e - 52" e] by simp
  qed
  then have "1 \<le> x / pow2 (e - 52)" using pow2_pos [of "e - 52"] by (simp add: le_divide_eq)
  then have "1 \<le> roundTiesToEven (x / pow2 (e - 52))" by (rule rte_ge_one)
  then have "0 < of_int (roundTiesToEven (x / pow2 (e - 52))) * pow2 (e - 52)"
    using pow2_pos [of "e - 52"] by (simp add: mult_pos_pos)
  then show ?thesis using x unfolding round64_def Let_def e_def [symmetric] by simp
qed

lemma round64_underflow:
  assumes a: "\<bar>x\<bar> \<le> pow2 (- 1075)"
  shows "round64 x = Finite 0"
proof (cases "x = 0")
  case True then show ?thesis by (simp add: round64_def)
next
  case False
  have "\<bar>x\<bar> < pow2 (- 1022)"
    using a pow2_strict_mono [of "- 1075" "- 1022"] by simp
  then have "log 2 \<bar>x\<bar> < - 1022" using False by (simp add: log_less_iff pow2_def)
  then have "\<lfloor>log 2 \<bar>x\<bar>\<rfloor> < - 1022" by linarith
  then have e: "max \<lfloor>log 2 \<bar>x\<bar>\<rfloor> (- 1022) - 52 = - 1074" by simp
  have "\<bar>x / pow2 (- 1074)\<bar> = \<bar>x\<bar> / pow2 (- 1074)" using pow2_pos [of "- 1074"] by simp
  also have "\<dots> \<le> pow2 (- 1075) / pow2 (- 1074)"
    using a pow2_pos [of "- 1074"] by (simp add: divide_right_mono)
  also have "\<dots> = 1 / 2" using pow2_diff [of "- 1075" "- 1074"] by (simp add: pow2_neg1)
  finally have "roundTiesToEven (x / pow2 (- 1074)) = 0" by (rule rte_small)
  then show ?thesis using False pow2_pos [of 1024] by (simp add: round64_def Let_def e)
qed

lemma round64_finite:
  assumes "\<bar>x\<bar> < pow2 1023"
  shows "\<exists>y. round64 x = Finite y"
proof (cases "x = 0")
  case True then show ?thesis by (simp add: round64_0)
next
  case False
  define e where "e = max \<lfloor>log 2 \<bar>x\<bar>\<rfloor> (- 1022)"
  define u where "u = pow2 (e - 52)"
  define m where "m = roundTiesToEven (x / u)"
  have "log 2 \<bar>x\<bar> < 1023" using assms False by (simp add: log_less_iff pow2_def)
  then have "\<lfloor>log 2 \<bar>x\<bar>\<rfloor> \<le> 1022" by linarith
  then have e: "e \<le> 1022" by (simp add: e_def)
  have u: "0 < u" "u \<le> pow2 970" using pow2_pos pow2_mono [of "e - 52" 970] e by (simp_all add: u_def)
  have "\<bar>of_int m - x / u\<bar> \<le> 1 / 2" unfolding m_def by (rule rte_close)
  then have "\<bar>of_int m - x / u\<bar> * u \<le> 1 / 2 * u" using u by (simp only: mult_le_cancel_right_pos)
  moreover have "of_int m * u - x = (of_int m - x / u) * u" using u by (simp add: left_diff_distrib)
  then have "\<bar>of_int m * u - x\<bar> = \<bar>of_int m - x / u\<bar> * u" using u by (simp only: abs_mult abs_of_pos)
  ultimately have "\<bar>of_int m * u - x\<bar> \<le> u / 2" by simp
  then have "\<bar>of_int m * u\<bar> \<le> \<bar>x\<bar> + u / 2" by linarith
  also have "\<dots> < pow2 1023 + pow2 970" using assms u pow2_pos [of 970] by linarith
  also have "\<dots> \<le> pow2 1023 + pow2 1023" using pow2_mono [of 970 1023] by simp
  also have "\<dots> = pow2 1024" using pow2_add [of 1 1023] by (simp add: pow2_1)
  finally have "\<not> pow2 1024 \<le> \<bar>of_int m * u\<bar>" by simp
  then show ?thesis using False unfolding round64_def Let_def e_def [symmetric] u_def [symmetric] m_def [symmetric]
    by simp
qed

lemma round64_overflow:
  assumes "pow2 1024 \<le> x"
  shows "round64 x = PosInfinity"
proof -
  have x: "0 < x" using assms pow2_pos [of 1024] by linarith
  define e where "e = max \<lfloor>log 2 \<bar>x\<bar>\<rfloor> (- 1022)"
  have "1024 \<le> log 2 x" using assms x by (simp add: le_log_iff pow2_def)
  then have f: "1024 \<le> \<lfloor>log 2 \<bar>x\<bar>\<rfloor>" using x by (simp add: le_floor_iff)
  then have e: "e = \<lfloor>log 2 x\<rfloor>" "1024 \<le> e" using x by (simp_all add: e_def)
  have "of_int e \<le> log 2 x" using e by simp
  then have xe: "pow2 e \<le> x" using x by (simp add: pow2_def le_log_iff)
  have "pow2 e / pow2 (e - 52) = pow2 52"
    using pow2_diff [of e "e - 52"] by simp
  then have "pow2 52 \<le> x / pow2 (e - 52)"
    using xe pow2_pos [of "e - 52"] by (metis divide_right_mono less_imp_le)
  then have "of_int (2 ^ 52) \<le> x / pow2 (e - 52)" using pow2_nat [of 52] by simp
  then have "2 ^ 52 \<le> \<lfloor>x / pow2 (e - 52)\<rfloor>" by (simp only: le_floor_iff)
  then have "2 ^ 52 \<le> roundTiesToEven (x / pow2 (e - 52))"
    using rte_ge_floor [of "x / pow2 (e - 52)"] by linarith
  then have "(of_int (2 ^ 52) :: real) \<le> of_int (roundTiesToEven (x / pow2 (e - 52)))"
    by (simp only: of_int_le_iff)
  then have "of_int (2 ^ 52) * pow2 (e - 52) \<le> of_int (roundTiesToEven (x / pow2 (e - 52))) * pow2 (e - 52)"
    using pow2_pos [of "e - 52"] by (simp only: mult_le_cancel_right_pos)
  moreover have "of_int (2 ^ 52) * pow2 (e - 52) = pow2 e"
    using pow2_add [of 52 "e - 52"] pow2_nat [of 52] by simp
  moreover have "pow2 1024 \<le> pow2 e" using e(2) by (rule pow2_mono)
  ultimately have "pow2 1024 \<le> \<bar>of_int (roundTiesToEven (x / pow2 (e - 52))) * pow2 (e - 52)\<bar>"
    by linarith
  then show ?thesis using x unfolding round64_def Let_def e_def [symmetric] by simp
qed

lemma round64_pow2:
  assumes "- 1022 \<le> e" "e \<le> 1023"
  shows "round64 (pow2 e) = Finite (pow2 e)"
proof -
  have x: "pow2 e \<noteq> 0" "\<bar>pow2 e\<bar> = pow2 e" using pow2_pos [of e] by simp_all
  have e: "max \<lfloor>log 2 \<bar>pow2 e\<bar>\<rfloor> (- 1022) = e" using assms by (simp add: x log_pow2)
  have "pow2 e / pow2 (e - 52) = pow2 52" using pow2_diff [of e "e - 52"] pow2_pos [of "e - 52"] pow2_pos [of e]
    by (simp add: field_simps)
  also have "\<dots> = of_int (2 ^ 52)" using pow2_nat [of 52] by simp
  finally have q: "roundTiesToEven (pow2 e / pow2 (e - 52)) = 2 ^ 52" by (simp only: rte_int)
  have y: "of_int (2 ^ 52) * pow2 (e - 52) = pow2 e"
    using pow2_add [of 52 "e - 52"] pow2_nat [of 52] by simp
  have "pow2 e < pow2 1024" using assms by (intro pow2_strict_mono) simp
  then show ?thesis unfolding round64_def Let_def e q y using x by simp
qed

lemma round64_neg_pow2:
  assumes "- 1022 \<le> e" "e \<le> 1023"
  shows "round64 (- pow2 e) = Finite (- pow2 e)"
proof -
  have x: "- pow2 e \<noteq> 0" "\<bar>- pow2 e\<bar> = pow2 e" using pow2_pos [of e] by simp_all
  have e: "max \<lfloor>log 2 \<bar>- pow2 e\<bar>\<rfloor> (- 1022) = e" using assms by (simp add: x log_pow2 del: abs_minus_cancel abs_minus)
  have "pow2 e / pow2 (e - 52) = pow2 52" using pow2_diff [of e "e - 52"] by simp
  then have "- pow2 e / pow2 (e - 52) = of_int (- (2 ^ 52))" using pow2_nat [of 52] by simp
  then have q: "roundTiesToEven (- pow2 e / pow2 (e - 52)) = - (2 ^ 52)" by (simp only: rte_int)
  have y: "of_int (- (2 ^ 52)) * pow2 (e - 52) = - pow2 e"
    using pow2_add [of 52 "e - 52"] pow2_nat [of 52] by simp
  have "pow2 e < pow2 1024" using assms by (intro pow2_strict_mono) simp
  then show ?thesis unfolding round64_def Let_def e q y using x by simp
qed

lemma round64_1: "round64 1 = Finite 1"
  using round64_pow2 [of 0] by (simp add: pow2_0)

lemma round64_2: "round64 2 = Finite 2"
  using round64_pow2 [of 1] by (simp add: pow2_1)

lemma round64_minus_1: "round64 (- 1) = Finite (- 1)"
  using round64_neg_pow2 [of 0] by (simp add: pow2_0)

lemma floor_log2:
  assumes "pow2 e \<le> x" "x < pow2 (e + 1)"
  shows "\<lfloor>log 2 x\<rfloor> = e"
proof -
  have "0 < x" using assms(1) pow2_pos [of e] by linarith
  then show ?thesis using assms by (simp add: floor_eq_iff le_log_iff log_less_iff pow2_def)
qed

lemma round64_eval:
  assumes "pow2 e \<le> \<bar>x\<bar>" "\<bar>x\<bar> < pow2 (e + 1)" "- 1022 \<le> e" "e \<le> 1022"
    and "\<bar>x / pow2 (e - 52) - of_int m\<bar> < 1 / 2"
  shows "round64 x = (if pow2 1024 \<le> \<bar>of_int m * pow2 (e - 52)\<bar> then (if 0 < x then PosInfinity else NegInfinity) else Finite (of_int m * pow2 (e - 52)))"
proof -
  have x: "x \<noteq> 0" using assms(1) pow2_pos [of e] by auto
  have e: "max \<lfloor>log 2 \<bar>x\<bar>\<rfloor> (- 1022) = e" using floor_log2 [OF assms(1,2)] assms(3) by simp
  have q: "roundTiesToEven (x / pow2 (e - 52)) = m" using assms(5) by (rule rte_near)
  show ?thesis unfolding round64_def Let_def e q using x by simp
qed

lemma round64_0_9: "round64 (9 / 10) = Finite (8106479329266893 / 2 ^ 53)"
proof -
  define x :: real where "x = 9 / 10"
  have p: "pow2 (- 1) = 1 / 2" "pow2 (- 1 + 1) = 1" "pow2 (- 1 - 52) = 1 / 2 ^ 53" "pow2 1024 = 2 ^ 1024"
    using pow2_neg_nat [of 53] pow2_nat [of 1024] by (simp_all add: pow2_neg1 pow2_0)
  have a: "pow2 (- 1) \<le> \<bar>x\<bar>" unfolding p x_def by simp
  have b: "\<bar>x\<bar> < pow2 (- 1 + 1)" unfolding p x_def by simp
  have c: "\<bar>x / pow2 (- 1 - 52) - of_int 8106479329266893\<bar> < 1 / 2" unfolding p x_def by simp
  show ?thesis using round64_eval [OF a b _ _ c] unfolding p x_def by simp
qed

lemma sqrt2_round: "round64 (sqrt 2) = Finite (6369051672525773 / 2 ^ 52)"
proof -
  have lo: "(12738103345051545 / 2 ^ 53 :: real) < sqrt 2"
    by (rule real_less_rsqrt) (simp add: power2_eq_square)
  have hi: "sqrt 2 < (12738103345051547 / 2 ^ 53 :: real)"
    by (rule real_less_lsqrt) (simp_all add: power2_eq_square)
  have p: "pow2 0 = 1" "pow2 (0 + 1) = 2" "pow2 (0 - 52) = 1 / 2 ^ 52" "pow2 1024 = 2 ^ 1024"
    using pow2_neg_nat [of 52] pow2_nat [of 1024] by (simp_all add: pow2_0 pow2_1)
  have a: "pow2 0 \<le> \<bar>sqrt 2\<bar>" unfolding p by simp
  have b: "\<bar>sqrt 2\<bar> < pow2 (0 + 1)" unfolding p using hi by simp
  have c: "\<bar>sqrt 2 / pow2 (0 - 52) - of_int 6369051672525773\<bar> < 1 / 2"
  proof -
    define s where "s = sqrt 2 / (1 / 2 ^ 52)"
    have "s = sqrt 2 * 2 ^ 52" by (simp add: s_def)
    then have "6369051672525773 - 1 / 2 < s" "s < 6369051672525773 + 1 / 2"
      using lo hi by simp_all
    then have "\<bar>s - 6369051672525773\<bar> < 1 / 2" by linarith
    then show ?thesis unfolding p s_def by simp
  qed
  show ?thesis using round64_eval [OF a b _ _ c] unfolding p by simp
qed

lemma sqrt2_squared_round:
  "round64 (6369051672525773 / 2 ^ 52 * (6369051672525773 / 2 ^ 52)) = Finite (4503599627370497 / 2 ^ 51)"
proof -
  define x :: real where "x = 6369051672525773 / 2 ^ 52 * (6369051672525773 / 2 ^ 52)"
  have p: "pow2 1 = 2" "pow2 (1 + 1) = 4" "pow2 (1 - 52) = 1 / 2 ^ 51" "pow2 1024 = 2 ^ 1024"
    using pow2_neg_nat [of 51] pow2_nat [of 1024] pow2_nat [of 2] by (simp_all add: pow2_1)
  have a: "pow2 1 \<le> \<bar>x\<bar>" unfolding p x_def by simp
  have b: "\<bar>x\<bar> < pow2 (1 + 1)" unfolding p x_def by simp
  have c: "\<bar>x / pow2 (1 - 52) - of_int 4503599627370497\<bar> < 1 / 2" unfolding p x_def by simp
  show ?thesis using round64_eval [OF a b _ _ c] unfolding p x_def by simp
qed

lemma two_over_round:
  "round64 (2 / (4503599627370497 / 2 ^ 51)) = Finite (4503599627370495 / 2 ^ 52)"
proof -
  define x :: real where "x = 2 / (4503599627370497 / 2 ^ 51)"
  have p: "pow2 (- 1) = 1 / 2" "pow2 (- 1 + 1) = 1" "pow2 (- 1 - 52) = 1 / 2 ^ 53" "pow2 1024 = 2 ^ 1024"
    using pow2_neg_nat [of 53] pow2_nat [of 1024] by (simp_all add: pow2_neg1 pow2_0)
  have a: "pow2 (- 1) \<le> \<bar>x\<bar>" unfolding p x_def by simp
  have b: "\<bar>x\<bar> < pow2 (- 1 + 1)" unfolding p x_def by simp
  have c: "\<bar>x / pow2 (- 1 - 52) - of_int 9007199254740990\<bar> < 1 / 2" unfolding p x_def by simp
  show ?thesis using round64_eval [OF a b _ _ c] unfolding p x_def by simp
qed

lemma rte_minus: "roundTiesToEven (- q) = - roundTiesToEven q"
proof (cases "q = of_int \<lfloor>q\<rfloor>")
  case True
  then have "- q = of_int (- \<lfloor>q\<rfloor>)" by simp
  then have "roundTiesToEven (- q) = - \<lfloor>q\<rfloor>" by (simp only: rte_int)
  moreover have "roundTiesToEven q = \<lfloor>q\<rfloor>" using True rte_int [of "\<lfloor>q\<rfloor>"] by simp
  ultimately show ?thesis by simp
next
  case False
  have q: "of_int \<lfloor>q\<rfloor> < q" "q < of_int \<lfloor>q\<rfloor> + 1" using False by linarith+
  have "real_of_int (- \<lfloor>q\<rfloor> - 1) = - of_int \<lfloor>q\<rfloor> - 1" by simp
  then have "of_int (- \<lfloor>q\<rfloor> - 1) \<le> - q" "- q < of_int (- \<lfloor>q\<rfloor> - 1) + 1" using q by linarith+
  then have f: "\<lfloor>- q\<rfloor> = - \<lfloor>q\<rfloor> - 1" by (rule floor_unique)
  show ?thesis using q unfolding roundTiesToEven_def Let_def f by (auto simp: algebra_simps)
qed

lemma round64_minus: "round64 (- x) = fneg (round64 x)"
proof (cases "x = 0")
  case True
  then show ?thesis by (simp add: round64_def)
next
  case False
  define e where "e = max \<lfloor>log 2 \<bar>x\<bar>\<rfloor> (- 1022)"
  define m where "m = roundTiesToEven (x / pow2 (e - 52))"
  define y where "y = of_int m * pow2 (e - 52)"
  have r1: "round64 x = (if pow2 1024 \<le> \<bar>y\<bar> then (if 0 < x then PosInfinity else NegInfinity) else Finite y)"
    using False unfolding round64_def Let_def e_def [symmetric] m_def [symmetric] y_def [symmetric] by simp
  have a: "\<bar>- x\<bar> = \<bar>x\<bar>" "- x / pow2 (e - 52) = - (x / pow2 (e - 52))" by simp_all
  have b: "of_int (- m) * pow2 (e - 52) = - y" by (simp add: y_def)
  have nz: "- x \<noteq> 0" using False by simp
  have r2: "round64 (- x) = (if pow2 1024 \<le> \<bar>- y\<bar> then (if 0 < - x then PosInfinity else NegInfinity) else Finite (- y))"
    unfolding round64_def Let_def a e_def [symmetric] rte_minus m_def [symmetric] b
    using nz by (simp only: if_False)
  show ?thesis unfolding r1 r2 using False by auto
qed


lemma round64_error:
  assumes "round64 x = Finite y"
  shows "\<bar>y - x\<bar> \<le> pow2 (max \<lfloor>log 2 \<bar>x\<bar>\<rfloor> (- 1022) - 53)"
proof (cases "x = 0")
  case True
  then show ?thesis using assms pow2_pos [of "max \<lfloor>log 2 \<bar>x\<bar>\<rfloor> (- 1022) - 53"]
    by (simp add: round64_def less_imp_le)
next
  case False
  define e where "e = max \<lfloor>log 2 \<bar>x\<bar>\<rfloor> (- 1022)"
  define v where "v = pow2 (e - 52)"
  define m where "m = roundTiesToEven (x / v)"
  have v: "0 < v" by (simp add: v_def pow2_pos)
  have y: "y = of_int m * v"
    using assms False unfolding round64_def Let_def e_def [symmetric] v_def [symmetric] m_def [symmetric]
    by (simp split: if_splits)
  have "\<bar>of_int m - x / v\<bar> \<le> 1 / 2" unfolding m_def by (rule rte_close)
  then have "\<bar>of_int m - x / v\<bar> * v \<le> 1 / 2 * v" using v by (simp only: mult_le_cancel_right_pos)
  moreover have "of_int m * v - x = (of_int m - x / v) * v" using v by (simp add: left_diff_distrib)
  then have "\<bar>of_int m * v - x\<bar> = \<bar>of_int m - x / v\<bar> * v" using v by (simp only: abs_mult abs_of_pos)
  ultimately have "\<bar>y - x\<bar> \<le> v / 2" by (simp add: y)
  moreover have "v / 2 = pow2 (e - 53)"
    using pow2_add [of "e - 53" 1] by (simp add: v_def pow2_1)
  ultimately show ?thesis by (simp add: e_def)
qed

lemma round64_rel:
  assumes "round64 x = Finite y"
  shows "\<bar>y - x\<bar> \<le> pow2 (- 53) * max \<bar>x\<bar> (pow2 (- 1022))"
proof (cases "x = 0")
  case True
  then have "y = 0" using assms by (simp add: round64_def)
  then show ?thesis using True pow2_pos [of "- 53"] pow2_pos [of "- 1022"]
    by (simp add: mult_nonneg_nonneg less_imp_le)
next
  case nz: False
  define e where "e = max \<lfloor>log 2 \<bar>x\<bar>\<rfloor> (- 1022)"
  have "pow2 e \<le> max \<bar>x\<bar> (pow2 (- 1022))"
  proof (cases "\<lfloor>log 2 \<bar>x\<bar>\<rfloor> \<le> - 1022")
    case True
    then have "e = - 1022" by (simp add: e_def)
    then show ?thesis by simp
  next
    case False
    then have e: "e = \<lfloor>log 2 \<bar>x\<bar>\<rfloor>" by (simp add: e_def)
    have x: "0 < \<bar>x\<bar>" using nz by simp
    have "of_int e \<le> log 2 \<bar>x\<bar>" using e by simp
    then have "pow2 e \<le> \<bar>x\<bar>" using x by (simp add: pow2_def le_log_iff)
    then show ?thesis by simp
  qed
  then have "pow2 (- 53) * pow2 e \<le> pow2 (- 53) * max \<bar>x\<bar> (pow2 (- 1022))"
    using pow2_pos [of "- 53"] by (simp only: mult_le_cancel_left_pos)
  moreover have "pow2 (e - 53) = pow2 (- 53) * pow2 e" using pow2_add [of "- 53" e] by simp
  ultimately show ?thesis using round64_error [OF assms] by (simp add: e_def)
qed

lemma rte_below: "q < of_int k + 1 / 2 \<Longrightarrow> roundTiesToEven q \<le> k"
proof -
  assume "q < of_int k + 1 / 2"
  moreover have "of_int (roundTiesToEven q) - q \<le> 1 / 2" using rte_close [of q] by linarith
  ultimately have "real_of_int (roundTiesToEven q) < of_int k + 1" by linarith
  then have "real_of_int (roundTiesToEven q) < of_int (k + 1)" by simp
  then have "roundTiesToEven q < k + 1" by (simp only: of_int_less_iff)
  then show ?thesis by simp
qed

lemma round64_below:
  assumes "0 < x" "x < of_int k * pow2 (e - 52) + pow2 (e - 53)"
    and "e = max \<lfloor>log 2 \<bar>x\<bar>\<rfloor> (- 1022)" and "round64 x = Finite y"
  shows "y \<le> of_int k * pow2 (e - 52)"
proof -
  define v where "v = pow2 (e - 52)"
  define m where "m = roundTiesToEven (x / v)"
  have v: "0 < v" by (simp add: v_def pow2_pos)
  have y: "y = of_int m * v"
    using assms(1,4) unfolding round64_def Let_def assms(3) [symmetric] v_def [symmetric] m_def [symmetric]
    by (simp split: if_splits)
  have h: "pow2 (e - 53) = v / 2" using pow2_add [of "e - 53" 1] by (simp add: v_def pow2_1)
  have "x < (of_int k + 1 / 2) * v" using assms(2) unfolding h v_def [symmetric] by (simp add: algebra_simps)
  then have "x / v < of_int k + 1 / 2" using v by (simp add: pos_divide_less_eq)
  then have "m \<le> k" unfolding m_def by (rule rte_below)
  then have "real_of_int m \<le> of_int k" by simp
  then have "of_int m * v \<le> of_int k * v" using v by (simp only: mult_le_cancel_right_pos)
  then show ?thesis by (simp add: y v_def)
qed

lemma round64_finite_top:
  assumes "\<bar>x\<bar> < pow2 1024 - pow2 970"
  shows "\<exists>y. round64 x = Finite y"
proof (cases "\<bar>x\<bar> < pow2 1023")
  case True
  then show ?thesis by (rule round64_finite)
next
  case False
  then have lo: "pow2 1023 \<le> \<bar>x\<bar>" by simp
  have "pow2 1024 - pow2 970 < pow2 1024" using pow2_pos [of 970] by simp
  then have hi: "\<bar>x\<bar> < pow2 (1023 + 1)" using assms by simp
  have nz: "x \<noteq> 0" using lo pow2_pos [of 1023] by auto
  have e: "max \<lfloor>log 2 \<bar>x\<bar>\<rfloor> (- 1022) = 1023" using floor_log2 [OF lo hi] by simp
  define m where "m = roundTiesToEven (x / pow2 971)"
  have p: "pow2 1024 = 2 ^ 53 * pow2 971" "pow2 970 = pow2 971 / 2"
    using pow2_add [of 53 971] pow2_nat [of 53] pow2_add [of 970 1] by (simp_all add: pow2_1)
  have v: "0 < pow2 971" by (rule pow2_pos)
  have "\<bar>x\<bar> < (2 ^ 53 - 1 / 2) * pow2 971" using assms unfolding p by (simp add: algebra_simps)
  then have "\<bar>x\<bar> / pow2 971 < 2 ^ 53 - 1 / 2" using v by (simp add: pos_divide_less_eq)
  then have q: "\<bar>x / pow2 971\<bar> < 2 ^ 53 - 1 / 2" using v by simp
  have "\<bar>real_of_int m - x / pow2 971\<bar> \<le> 1 / 2" unfolding m_def by (rule rte_close)
  then have "\<bar>real_of_int m\<bar> < 2 ^ 53" using q by linarith
  then have "\<bar>real_of_int m\<bar> * pow2 971 < 2 ^ 53 * pow2 971" using v by (simp only: mult_less_cancel_right_pos)
  then have "\<bar>real_of_int m * pow2 971\<bar> < pow2 1024" using v unfolding p by (simp add: abs_mult)
  then have "\<not> pow2 1024 \<le> \<bar>real_of_int m * pow2 971\<bar>" by simp
  then show ?thesis using nz unfolding round64_def Let_def e m_def by simp
qed

lemma round64_max:
  assumes "round64 x = Finite y"
  shows "\<bar>y\<bar> \<le> pow2 1024 - pow2 971"
proof (cases "x = 0")
  case True
  then have "y = 0" using assms by (simp add: round64_def)
  moreover have "pow2 971 \<le> pow2 1024" by (rule pow2_mono) simp
  ultimately show ?thesis by simp
next
  case nz: False
  define e where "e = max \<lfloor>log 2 \<bar>x\<bar>\<rfloor> (- 1022)"
  define m where "m = roundTiesToEven (x / pow2 (e - 52))"
  have y: "y = of_int m * pow2 (e - 52)" and b: "\<bar>of_int m * pow2 (e - 52)\<bar> < pow2 1024"
    using assms nz unfolding round64_def Let_def e_def [symmetric] m_def [symmetric]
    by (simp_all split: if_splits)
  show ?thesis
  proof (cases "e \<le> 1022")
    case True
    have "log 2 \<bar>x\<bar> < of_int \<lfloor>log 2 \<bar>x\<bar>\<rfloor> + 1" by linarith
    also have "\<dots> \<le> of_int e + 1" by (simp add: e_def)
    also have "\<dots> \<le> 1023" using True by simp
    finally have "\<bar>x\<bar> < pow2 1023" using nz by (simp add: log_less_iff pow2_def)
    moreover have "\<bar>y - x\<bar> \<le> pow2 (e - 53)" using round64_error [OF assms] by (simp add: e_def)
    moreover have "pow2 (e - 53) \<le> pow2 970" using True by (intro pow2_mono) simp
    ultimately have "\<bar>y\<bar> < pow2 1023 + pow2 970" by linarith
    moreover have "pow2 1024 = pow2 1023 + pow2 1023" using pow2_add [of 1 1023] by (simp add: pow2_1)
    moreover have "pow2 970 + pow2 971 \<le> pow2 1023"
    proof -
      have "pow2 971 = 2 * pow2 970" "pow2 972 = 2 * pow2 971"
        using pow2_add [of 1 970] pow2_add [of 1 971] by (simp_all add: pow2_1)
      moreover have "pow2 972 \<le> pow2 1023" by (rule pow2_mono) simp
      ultimately show ?thesis using pow2_pos [of 970] by linarith
    qed
    ultimately show ?thesis by linarith
  next
    case False
    have "e \<le> 1023"
    proof (rule ccontr)
      assume "\<not> e \<le> 1023"
      then have "1024 \<le> \<lfloor>log 2 \<bar>x\<bar>\<rfloor>" by (simp add: e_def)
      then have "1024 \<le> log 2 \<bar>x\<bar>" by linarith
      then have "pow2 1024 \<le> \<bar>x\<bar>" using nz by (simp add: le_log_iff pow2_def)
      then have "round64 \<bar>x\<bar> = PosInfinity" by (rule round64_overflow)
      then show False using assms round64_minus [of x] by (cases "0 \<le> x") simp_all
    qed
    with False have e: "e = 1023" by simp
    have p: "pow2 1024 = 2 ^ 53 * pow2 971"
      using pow2_add [of 53 971] pow2_nat [of 53] by simp
    have v: "0 < pow2 971" by (rule pow2_pos)
    have "\<bar>real_of_int m\<bar> * pow2 971 < 2 ^ 53 * pow2 971" using b v unfolding e p by (simp add: abs_mult)
    then have "\<bar>real_of_int m\<bar> < 2 ^ 53" using v by (simp only: mult_less_cancel_right_pos)
    then have "real_of_int \<bar>m\<bar> < of_int (2 ^ 53)" by simp
    then have "\<bar>m\<bar> < 2 ^ 53" by (simp only: of_int_less_iff)
    then have "\<bar>m\<bar> \<le> 2 ^ 53 - 1" by simp
    then have "real_of_int \<bar>m\<bar> \<le> of_int (2 ^ 53 - 1)" by (simp only: of_int_le_iff)
    then have "\<bar>real_of_int m\<bar> \<le> 2 ^ 53 - 1" by simp
    then have "\<bar>real_of_int m\<bar> * pow2 971 \<le> (2 ^ 53 - 1) * pow2 971" using v by (simp only: mult_le_cancel_right_pos)
    then show ?thesis using v unfolding y e p by (simp add: abs_mult algebra_simps)
  qed
qed

subsection \<open>The comparator and the sort\<close>

lemma num_le_refl: "n \<noteq> NaN \<Longrightarrow> num_le n n"
  by (cases n) simp_all

lemma num_le_trans: "num_le a b \<Longrightarrow> num_le b c \<Longrightarrow> num_le a c"
  by (cases a; cases b; cases c) simp_all

lemma num_le_total: "a \<noteq> NaN \<Longrightarrow> b \<noteq> NaN \<Longrightarrow> num_le a b \<or> num_le b a"
  by (cases a; cases b) auto

lemma fsub_positive:
  assumes "is_double a" "is_double b" "a \<noteq> NaN" "b \<noteq> NaN"
  shows "is_positive (fsub b a) \<longleftrightarrow> num_le a b \<and> \<not> num_le b a"
proof (cases a; cases b)
  fix x y
  assume a: "a = Finite x" and b: "b = Finite y"
  obtain k l :: int where k: "x = of_int k * pow2 (- 1074)" and l: "y = of_int l * pow2 (- 1074)"
    using assms(1,2) a b by (auto simp: is_double_def)
  show ?thesis
  proof (cases "x < y")
    case True
    then have "k < l" using k l pow2_pos [of "- 1074"] by (simp add: mult_less_cancel_right_pos)
    then have "1 \<le> l - k" by simp
    then have "(1::real) \<le> of_int (l - k)" by (simp only: of_int_1_le_iff)
    then have "1 * pow2 (- 1074) \<le> of_int (l - k) * pow2 (- 1074)"
      using pow2_pos [of "- 1074"] by (simp only: mult_le_cancel_right_pos)
    then have "pow2 (- 1074) \<le> y + - x" using k l by (simp add: left_diff_distrib)
    then have "is_positive (round64 (y + - x))" by (rule round64_positive)
    then show ?thesis using True a b by (simp add: fsub_def)
  next
    case False
    then have "y + - x \<le> 0" by simp
    then have "\<not> is_positive (round64 (y + - x))" by (rule round64_nonpos)
    then show ?thesis using False a b by (auto simp: fsub_def)
  qed
qed (use assms in \<open>simp_all add: fsub_def\<close>)

lemma set_insert_sorted: "set (insert_sorted c x ys) = insert x (set ys)"
  by (induction ys) auto

lemma length_insert_sorted: "length (insert_sorted c x ys) = Suc (length ys)"
  by (induction ys) auto

lemma set_stable_sort: "set (stable_sort c xs) = set xs"
  by (induction xs) (simp_all add: stable_sort_def set_insert_sorted)

lemma length_stable_sort: "length (stable_sort c xs) = length xs"
  by (induction xs) (simp_all add: stable_sort_def length_insert_sorted)

lemma sorted_insert_sorted:
  assumes "\<forall>z\<in>insert x (set ys). is_double (sc z) \<and> sc z \<noteq> NaN"
    and "sorted_wrt (\<lambda>a b. num_le (sc b) (sc a)) ys"
  shows "sorted_wrt (\<lambda>a b. num_le (sc b) (sc a)) (insert_sorted (\<lambda>a b. fsub (sc b) (sc a)) x ys)"
  using assms
proof (induction ys)
  case Nil
  then show ?case by simp
next
  case (Cons y ys)
  have d: "is_double (sc x)" "sc x \<noteq> NaN" "is_double (sc y)" "sc y \<noteq> NaN" using Cons.prems(1) by auto
  show ?case
  proof (cases "is_positive (fsub (sc y) (sc x))")
    case True
    then have xy: "num_le (sc x) (sc y)" using fsub_positive [OF d(1) d(3) d(2) d(4)] by simp
    have "sorted_wrt (\<lambda>a b. num_le (sc b) (sc a)) (insert_sorted (\<lambda>a b. fsub (sc b) (sc a)) x ys)"
      using Cons by auto
    then show ?thesis using True xy Cons.prems(2) by (auto simp: set_insert_sorted)
  next
    case False
    then have "\<not> (num_le (sc x) (sc y) \<and> \<not> num_le (sc y) (sc x))"
      using fsub_positive [OF d(1) d(3) d(2) d(4)] by simp
    then have yx: "num_le (sc y) (sc x)" using num_le_total [OF d(2) d(4)] by blast
    have "\<forall>z\<in>set ys. num_le (sc z) (sc x)"
      using Cons.prems(2) yx num_le_trans by fastforce
    then show ?thesis using False yx Cons.prems(2) by simp
  qed
qed

lemma sorted_stable_sort:
  assumes "\<forall>z\<in>set xs. is_double (sc z) \<and> sc z \<noteq> NaN"
  shows "sorted_wrt (\<lambda>a b. num_le (sc b) (sc a)) (stable_sort (\<lambda>a b. fsub (sc b) (sc a)) xs)"
  using assms
proof (induction xs)
  case Nil
  then show ?case by (simp add: stable_sort_def)
next
  case (Cons x xs)
  have s: "sorted_wrt (\<lambda>a b. num_le (sc b) (sc a)) (stable_sort (\<lambda>a b. fsub (sc b) (sc a)) xs)"
    using Cons by simp
  have "\<forall>z\<in>insert x (set (stable_sort (\<lambda>a b. fsub (sc b) (sc a)) xs)). is_double (sc z) \<and> sc z \<noteq> NaN"
    using Cons.prems by (simp add: set_stable_sort)
  from sorted_insert_sorted [OF this s] show ?case by (simp add: stable_sort_def)
qed

lemma stable_sort_unchanged:
  "\<forall>x\<in>set xs. \<forall>y\<in>set xs. \<not> is_positive (c x y) \<Longrightarrow> stable_sort c xs = xs"
proof (induction xs)
  case Nil
  then show ?case by (simp add: stable_sort_def)
next
  case (Cons x xs)
  then have "stable_sort c xs = xs" by simp
  then have "stable_sort c (x # xs) = insert_sorted c x xs" by (simp add: stable_sort_def)
  then show ?case using Cons.prems by (cases xs) simp_all
qed

lemma is_negative_fneg: "is_negative (fneg n) = is_positive n"
  by (cases n) simp_all

lemma fneg_fneg: "fneg (fneg n) = n"
  by (cases n) simp_all

lemma fadd_fneg: "fadd (fneg a) (fneg b) = fneg (fadd a b)"
proof (cases a; cases b)
  fix x y
  assume "a = Finite x" "b = Finite y"
  then show ?thesis using round64_minus [of "x + y"] by simp
qed simp_all

lemma fsub_swap: "fsub a b = fneg (fsub b a)"
  using fadd_fneg [of b "fneg a"] by (cases a; cases b) (simp_all add: fsub_def fneg_fneg add.commute)

lemma fsub_negative:
  assumes "is_double a" "is_double b" "a \<noteq> NaN" "b \<noteq> NaN"
  shows "is_negative (fsub b a) \<longleftrightarrow> num_le b a \<and> \<not> num_le a b"
proof -
  have "is_negative (fsub b a) = is_positive (fsub a b)"
    using fsub_swap [of b a] by (simp add: is_negative_fneg)
  then show ?thesis using fsub_positive [OF assms(2,1,4,3)] by simp
qed

lemma consistent_scores:
  assumes "\<forall>z\<in>set xs. is_double (sc z) \<and> sc z \<noteq> NaN"
  shows "consistent_comparator (\<lambda>a b. fsub (sc b) (sc a)) xs"
proof -
  have "consistent_at (\<lambda>a b. fsub (sc b) (sc a)) a b c"
    if "a \<in> set xs" "b \<in> set xs" "c \<in> set xs" for a b c
  proof -
    have d: "is_double (sc a)" "sc a \<noteq> NaN" "is_double (sc b)" "sc b \<noteq> NaN"
      "is_double (sc c)" "sc c \<noteq> NaN"
      using assms that by auto
    note p = fsub_positive [OF d(1) d(3) d(2) d(4)] fsub_positive [OF d(3) d(5) d(4) d(6)]
      fsub_positive [OF d(1) d(5) d(2) d(6)] fsub_positive [OF d(3) d(1) d(4) d(2)]
      fsub_positive [OF d(1) d(1) d(2) d(2)]
    note n = fsub_negative [OF d(1) d(3) d(2) d(4)] fsub_negative [OF d(3) d(5) d(4) d(6)]
      fsub_negative [OF d(1) d(5) d(2) d(6)] fsub_negative [OF d(3) d(1) d(4) d(2)]
      fsub_negative [OF d(1) d(1) d(2) d(2)]
    show ?thesis
      unfolding consistent_at_def level_def comes_before_def comes_after_def p n
      using num_le_total [OF d(2) d(4)] num_le_total [OF d(4) d(6)] num_le_total [OF d(2) d(6)]
        num_le_refl [OF d(2)]
      by (auto intro: num_le_trans)
  qed
  then show ?thesis by (simp add: consistent_comparator_def list_all_iff)
qed

lemma all_level_consistent:
  assumes "\<forall>a\<in>set xs. \<forall>b\<in>set xs. level c a b"
  shows "consistent_comparator c xs"
proof -
  have "\<not> comes_before c a b" "\<not> comes_after c a b" if "a \<in> set xs" "b \<in> set xs" for a b
    using assms that by (auto simp: level_def comes_before_def comes_after_def)
  then show ?thesis using assms
    by (simp add: consistent_comparator_def list_all_iff consistent_at_def)
qed

lemma set_rearranged: "set (rearranged rank xs) = set xs"
proof -
  have "set (rearranged rank xs) = snd ` set (enumerate 0 xs)"
    by (simp add: rearranged_def)
  also have "\<dots> = set (map snd (enumerate 0 xs))" by (simp only: set_map)
  also have "\<dots> = set xs" by (simp only: map_snd_enumerate)
  finally show ?thesis .
qed

lemma length_rearranged: "length (rearranged rank xs) = length xs"
  by (simp add: rearranged_def)

lemma set_array_sort: "set (array_sort rank c xs) = set xs"
  by (simp add: array_sort_def set_stable_sort set_rearranged)

lemma length_array_sort: "length (array_sort rank c xs) = length xs"
  by (simp add: array_sort_def length_stable_sort length_rearranged)

lemma array_sort_scores:
  assumes "\<forall>z\<in>set xs. is_double (sc z) \<and> sc z \<noteq> NaN"
  shows "array_sort rank (\<lambda>a b. fsub (sc b) (sc a)) xs = stable_sort (\<lambda>a b. fsub (sc b) (sc a)) xs"
  using consistent_scores [OF assms] by (simp add: array_sort_def)

lemma fsub_self_not_positive: "\<not> is_positive (fsub a a)"
  by (cases a) (simp_all add: fsub_def round64_0)

lemma filter_insert_sorted:
  "filter (\<lambda>r. sc r = s) (insert_sorted (\<lambda>a b. fsub (sc b) (sc a)) x ys) =
     (if sc x = s then x # filter (\<lambda>r. sc r = s) ys else filter (\<lambda>r. sc r = s) ys)"
proof (induction ys)
  case Nil
  then show ?case by simp
next
  case (Cons y ys)
  show ?case
  proof (cases "is_positive (fsub (sc y) (sc x))")
    case True
    then have "sc y \<noteq> sc x" using fsub_self_not_positive [of "sc x"] by auto
    then show ?thesis using True Cons by auto
  next
    case False
    then show ?thesis by simp
  qed
qed

lemma stable_sort_stable:
  "filter (\<lambda>r. sc r = s) (stable_sort (\<lambda>a b. fsub (sc b) (sc a)) xs) = filter (\<lambda>r. sc r = s) xs"
  by (induction xs) (simp_all add: stable_sort_def filter_insert_sorted)

subsection \<open>The similarity scorer\<close>

lemma is_double_zero: "is_double (Finite 0)"
proof -
  have "(0::real) = of_int 0 * pow2 (- 1074)" by simp
  then show ?thesis unfolding is_double_def by (auto simp del: of_int_0)
qed

lemma fdiv_is_double: "is_double (fdiv x y)"
  by (cases x; cases y) (simp_all add: round64_is_double is_double_zero, simp_all add: is_double_def)

lemma cosineSimilarity_is_double: "is_double (cosineSimilarity a b)"
  by (simp add: cosineSimilarity_def Let_def split_beta is_double_zero fdiv_is_double)

lemma norm_acc_round64: "0 \<le> x \<Longrightarrow> norm_acc (round64 x)"
proof (cases "round64 x")
  case (Finite y)
  assume "0 \<le> x"
  then show ?thesis using Finite round64_nonneg(2) [of x y] round64_Finite_bound [of x y]
    by (simp add: norm_acc_def)
next
  case NegInfinity
  assume "0 \<le> x"
  then show ?thesis using NegInfinity round64_nonneg(1) [of x] by simp
qed (simp_all add: norm_acc_def)

lemma norm_acc_square: "norm_acc (fmul x x)"
  by (cases x) (simp_all add: norm_acc_round64, simp_all add: norm_acc_def)

lemma norm_acc_fadd: "norm_acc a \<Longrightarrow> norm_acc b \<Longrightarrow> norm_acc (fadd a b)"
proof (cases a; cases b)
  fix x y
  assume "norm_acc a" "norm_acc b" "a = Finite x" "b = Finite y"
  then have "0 \<le> x + y" "fadd a b = round64 (x + y)" by (simp_all add: norm_acc_def)
  then show ?thesis by (simp add: norm_acc_round64)
qed (simp_all add: norm_acc_def)

lemma norm_acc_foldl:
  "norm_acc n \<Longrightarrow> norm_acc (foldl (\<lambda>acc x. fadd acc (fmul x x)) n a)"
  by (induction a arbitrary: n) (simp_all add: norm_acc_fadd norm_acc_square)

lemma norm_acc_squared_norm: "norm_acc (squared_norm a)"
  unfolding squared_norm_def by (rule norm_acc_foldl) (simp add: norm_acc_def pow2_pos)

lemma sqrt_pow2_1024: "sqrt (pow2 1024) = pow2 512"
proof -
  have "pow2 1024 = (pow2 512)\<^sup>2" using pow2_add [of 512 512] by (simp add: power2_eq_square)
  then show ?thesis using pow2_pos [of 512] by simp
qed

lemma fsqrt_finite:
  assumes "0 \<le> r" "r < pow2 1024"
  shows "\<exists>s. fsqrt (Finite r) = Finite s"
proof -
  have "sqrt r < sqrt (pow2 1024)" using assms by simp
  then have "sqrt r < pow2 512" by (simp only: sqrt_pow2_1024)
  also have "\<dots> < pow2 1023" by (rule pow2_strict_mono) simp
  finally have "\<bar>sqrt r\<bar> < pow2 1023" using assms(1) by simp
  then obtain s where "round64 (sqrt r) = Finite s" using round64_finite by blast
  then show ?thesis using assms(1) by simp
qed

lemma cosine_loop_norms:
  "length a = length b \<Longrightarrow>
   snd (cosine_loop a b (d, na, nb)) =
     (foldl (\<lambda>acc x. fadd acc (fmul x x)) na a, foldl (\<lambda>acc x. fadd acc (fmul x x)) nb b)"
  by (induction a b arbitrary: d na nb rule: list_induct2) simp_all

lemma cosineSimilarity_zero_norm:
  assumes "length a = length b" "squared_norm a = Finite 0" "squared_norm b = Finite nb"
  shows "cosineSimilarity a b = Finite 0" and "cosineSimilarity b a = Finite 0"
proof -
  have "norm_acc (Finite nb)" using norm_acc_squared_norm [of b] assms(3) by simp
  then have "0 \<le> nb" "nb < pow2 1024" by (simp_all add: norm_acc_def)
  then obtain s where s: "fsqrt (Finite nb) = Finite s" using fsqrt_finite by blast
  have z: "fsqrt (Finite 0) = Finite 0" by (simp add: round64_0)
  have d: "fmul (Finite 0) (Finite s) = Finite 0" "fmul (Finite s) (Finite 0) = Finite 0"
    by (simp_all add: round64_0)
  obtain dot where ab: "cosine_loop a b (Finite 0, Finite 0, Finite 0) = (dot, Finite 0, Finite nb)"
    using cosine_loop_norms [OF assms(1), of "Finite 0" "Finite 0" "Finite 0"] assms(2,3)
    by (cases "cosine_loop a b (Finite 0, Finite 0, Finite 0)") (simp add: squared_norm_def)
  obtain dot' where ba: "cosine_loop b a (Finite 0, Finite 0, Finite 0) = (dot', Finite nb, Finite 0)"
    using cosine_loop_norms [OF assms(1) [symmetric], of "Finite 0" "Finite 0" "Finite 0"] assms(2,3)
    by (cases "cosine_loop b a (Finite 0, Finite 0, Finite 0)") (simp add: squared_norm_def)
  show "cosineSimilarity a b = Finite 0"
    using assms(1) by (simp only: cosineSimilarity_def ab Let_def split_conv s z d) simp
  show "cosineSimilarity b a = Finite 0"
    using assms(1) by (simp only: cosineSimilarity_def ba Let_def split_conv s z d) simp
qed

lemma cosine_underflow:
  "cosineSimilarity [Finite (pow2 (- 600))] [Finite (pow2 (- 600))] = Finite 0"
proof -
  have "pow2 (- 600) * pow2 (- 600) = pow2 (- 1200)" using pow2_add [of "- 600" "- 600"] by simp
  moreover have "\<bar>pow2 (- 1200)\<bar> \<le> pow2 (- 1075)" using pow2_mono [of "- 1200" "- 1075"] pow2_pos [of "- 1200"] by simp
  ultimately have m: "round64 (pow2 (- 600) * pow2 (- 600)) = Finite 0"
    using round64_underflow by simp
  show ?thesis by (simp add: cosineSimilarity_def m round64_0)
qed

lemma cosine_ones:
  "cosineSimilarity [Finite 1, Finite 1] [Finite 1, Finite 1] = Finite (4503599627370495 / 2 ^ 52)"
proof -
  have n: "cosine_loop [Finite 1, Finite 1] [Finite 1, Finite 1] (Finite 0, Finite 0, Finite 0)
        = (Finite 2, Finite 2, Finite 2)"
    by (simp add: round64_1 round64_2)
  have s: "fsqrt (Finite 2) = Finite (6369051672525773 / 2 ^ 52)"
    by (simp add: sqrt2_round)
  have d: "fmul (fsqrt (Finite 2)) (fsqrt (Finite 2)) = Finite (4503599627370497 / 2 ^ 51)"
    unfolding s by (simp only: fmul.simps sqrt2_squared_round)
  have f: "fdiv (Finite 2) (Finite (4503599627370497 / 2 ^ 51)) = Finite (4503599627370495 / 2 ^ 52)"
    using two_over_round by simp
  have z: "Finite (4503599627370497 / 2 ^ 51) \<noteq> Finite 0" by simp
  show ?thesis
    by (simp only: cosineSimilarity_def n Let_def d f z split_conv if_False simp_thms list.size)
qed

lemma cosine_same_axis: "cosineSimilarity [Finite 1, Finite 0] [Finite 1, Finite 0] = Finite 1"
  by (simp add: cosineSimilarity_def round64_0 round64_1)

lemma sqrt_pow2_double: "sqrt (pow2 (2 * e)) = pow2 e"
proof -
  have "pow2 (2 * e) = (pow2 e)\<^sup>2" using pow2_add [of e e] by (simp add: power2_eq_square)
  then show ?thesis using pow2_pos [of e] by simp
qed

lemma self_denominator:
  assumes n: "0 < n" "n = of_int k * pow2 (- 1074)" "n \<le> pow2 1024 - pow2 971"
  shows "\<exists>d. fmul (fsqrt (Finite n)) (fsqrt (Finite n)) = Finite d \<and> \<bar>d - n\<bar> \<le> 27 / 2 ^ 55 * n"
proof -
  define u :: real where "u = 1 / 2 ^ 53"
  define a :: real where "a = 5 / 2 ^ 54"
  define x where "x = sqrt n"
  have u: "pow2 (- 53) = u" using pow2_neg_nat [of 53] by (simp add: u_def)
  have x: "0 < x" "x * x = n" using n(1) by (simp_all add: x_def)
  have "0 < real_of_int k" using n(1,2) pow2_pos [of "- 1074"] by (simp add: zero_less_mult_iff)
  then have "1 \<le> k" by simp
  then have "(1::real) \<le> of_int k" by (simp only: of_int_1_le_iff)
  then have "1 * pow2 (- 1074) \<le> of_int k * pow2 (- 1074)"
    using pow2_pos [of "- 1074"] by (simp only: mult_le_cancel_right_pos)
  then have n_lo: "pow2 (- 1074) \<le> n" using n(2) by simp
  have "sqrt (pow2 (2 * (- 537))) \<le> sqrt n" using n_lo by simp
  then have "pow2 (- 537) \<le> x" by (simp only: sqrt_pow2_double x_def)
  moreover have "pow2 (- 1022) \<le> pow2 (- 537)" by (rule pow2_mono) simp
  ultimately have x_lo: "pow2 (- 1022) \<le> x" by simp
  have n_hi: "n < pow2 1024" using n(3) pow2_pos [of 971] by linarith
  obtain s where "fsqrt (Finite n) = Finite s" using fsqrt_finite [of n] n(1) n_hi by auto
  then have s: "fsqrt (Finite n) = Finite s" "round64 x = Finite s" using n(1) by (simp_all add: x_def)
  have "\<bar>s - x\<bar> \<le> u * max \<bar>x\<bar> (pow2 (- 1022))" using round64_rel [OF s(2)] by (simp only: u)
  then have sx: "\<bar>s - x\<bar> \<le> u * x" using x(1) x_lo by (simp add: max_def)
  have ux: "0 \<le> u * x" "u * x \<le> x / 2" using x(1) by (simp_all add: u_def)
  have s_pos: "0 < s" using sx ux x(1) by linarith
  define p where "p = s * s"
  have "p - n = (s - x) * (s + x)" using x(2) by (simp add: p_def algebra_simps)
  then have "\<bar>p - n\<bar> = \<bar>s - x\<bar> * \<bar>s + x\<bar>" by (simp only: abs_mult)
  also have "\<dots> \<le> (u * x) * ((2 + u) * x)"
  proof (rule mult_mono)
    show "\<bar>s - x\<bar> \<le> u * x" by (rule sx)
    show "\<bar>s + x\<bar> \<le> (2 + u) * x" using sx s_pos x(1) by (simp add: algebra_simps)
    show "0 \<le> u * x" by (rule ux)
    show "0 \<le> \<bar>s + x\<bar>" by simp
  qed
  also have "\<dots> = (u * (2 + u)) * n" using x(2) by (simp add: algebra_simps)
  also have "\<dots> \<le> a * n"
  proof (rule mult_right_mono)
    show "u * (2 + u) \<le> a" by (simp add: u_def a_def)
    show "0 \<le> n" using n(1) by simp
  qed
  finally have pn: "\<bar>p - n\<bar> \<le> a * n" .
  have an: "0 \<le> a * n" "a * n \<le> n / 2" using n(1) by (simp_all add: a_def)
  have p_pos: "0 < p" using s_pos by (simp add: p_def)
  have p_hi: "p \<le> n + a * n" using pn by linarith
  have "\<bar>p\<bar> < pow2 1024 - pow2 970"
  proof (cases "n < pow2 1022")
    case True
    have "pow2 1023 = 2 * pow2 1022" using pow2_add [of 1 1022] by (simp add: pow2_1)
    then have "p < pow2 1023" using p_hi an True by linarith
    moreover have "pow2 1024 = 2 * pow2 1023" using pow2_add [of 1 1023] by (simp add: pow2_1)
    moreover have "pow2 970 < pow2 1023" by (rule pow2_strict_mono) simp
    ultimately show ?thesis using p_pos by linarith
  next
    case False
    then have "sqrt (pow2 (2 * 511)) \<le> sqrt n" by simp
    then have lo: "pow2 511 \<le> \<bar>x\<bar>" using x(1) by (simp only: sqrt_pow2_double x_def, simp?)
    define c where "c = pow2 512 - pow2 458"
    have c: "0 \<le> c" using pow2_mono [of 458 512] by (simp add: c_def)
    have sq: "pow2 512 * pow2 512 = pow2 1024" "pow2 512 * pow2 458 = pow2 970"
      "pow2 458 * pow2 512 = pow2 970"
      "pow2 458 * pow2 458 = pow2 916" "pow2 971 = 2 * pow2 970"
      using pow2_add [of 512 512] pow2_add [of 512 458] pow2_add [of 458 512] pow2_add [of 458 458]
        pow2_add [of 1 970]
      by (simp_all add: pow2_1)
    have "c\<^sup>2 = pow2 1024 - pow2 971 + pow2 916"
      unfolding c_def power2_eq_square by (simp add: algebra_simps sq)
    then have "n < c\<^sup>2" using n(3) pow2_pos [of 916] by linarith
    then have xc: "x < c" unfolding x_def using c by (intro real_less_lsqrt) simp_all
    have "pow2 458 > 0" by (rule pow2_pos)
    then have hi: "\<bar>x\<bar> < pow2 (511 + 1)" using xc x(1) by (simp add: c_def)
    have e: "511 = max \<lfloor>log 2 \<bar>x\<bar>\<rfloor> (- 1022)" using floor_log2 [OF lo hi] by simp
    have g: "real_of_int (2 ^ 53 - 1) * pow2 (511 - 52) + pow2 (511 - 53) = c"
      "real_of_int (2 ^ 53 - 1) * pow2 (511 - 52) = pow2 512 - pow2 459"
      using pow2_add [of 53 459] pow2_nat [of 53] pow2_add [of 1 458]
      by (simp_all add: c_def algebra_simps pow2_1)
    have "x < real_of_int (2 ^ 53 - 1) * pow2 (511 - 52) + pow2 (511 - 53)" using xc by (simp only: g(1))
    from round64_below [OF x(1) this e s(2)]
    have s_hi: "s \<le> pow2 512 - pow2 459" by (simp only: g(2))
    have "s * s \<le> (pow2 512 - pow2 459) * (pow2 512 - pow2 459)"
      using s_hi s_pos by (intro mult_mono) simp_all
    moreover have "(pow2 512 - pow2 459) * (pow2 512 - pow2 459) = pow2 1024 - pow2 972 + pow2 918"
    proof -
      have "pow2 512 * pow2 512 = pow2 1024" "pow2 512 * pow2 459 = pow2 971"
        "pow2 459 * pow2 512 = pow2 971" "pow2 459 * pow2 459 = pow2 918" "pow2 972 = 2 * pow2 971"
        using pow2_add [of 512 512] pow2_add [of 512 459] pow2_add [of 459 512] pow2_add [of 459 459]
          pow2_add [of 1 971]
        by (simp_all add: pow2_1)
      then show ?thesis by (simp add: algebra_simps)
    qed
    moreover have "pow2 972 = 4 * pow2 970" using pow2_add [of 2 970] pow2_nat [of 2] by simp
    moreover have "pow2 918 < pow2 970" by (rule pow2_strict_mono) simp
    ultimately show ?thesis using p_pos pow2_pos [of 970] by (simp add: p_def, linarith?)
  qed
  then obtain d where d: "round64 p = Finite d" using round64_finite_top by blast
  have fm: "fmul (fsqrt (Finite n)) (fsqrt (Finite n)) = Finite d"
    unfolding s(1) by (simp add: p_def [symmetric] d)
  have dp: "\<bar>d - p\<bar> \<le> u * max \<bar>p\<bar> (pow2 (- 1022))" using round64_rel [OF d] by (simp only: u)
  have "\<bar>d - n\<bar> \<le> 27 / 2 ^ 55 * n"
  proof (cases "n \<le> pow2 (- 1024)")
    case True
    have q: "pow2 (- 1022) = 8 * pow2 (- 1025)" "pow2 (- 1024) = 2 * pow2 (- 1025)"
      using pow2_add [of 3 "- 1025"] pow2_nat [of 3] pow2_add [of 1 "- 1025"] by (simp_all add: pow2_1)
    have "p \<le> pow2 (- 1022)" using p_hi an True pow2_pos [of "- 1025"] unfolding q by linarith
    then have "\<bar>d - p\<bar> \<le> u * pow2 (- 1022)" using dp p_pos by (simp add: max_def)
    moreover have "u * pow2 (- 1022) = pow2 (- 1075)" using pow2_add [of "- 53" "- 1022"] by (simp add: u)
    ultimately have e1: "\<bar>d - p\<bar> \<le> pow2 (- 1075)" by simp
    have "a * n \<le> a * pow2 (- 1024)" using True by (intro mult_left_mono) (simp_all add: a_def)
    moreover have "pow2 (- 1024) = 2 ^ 51 * pow2 (- 1075)" using pow2_add [of 51 "- 1075"] pow2_nat [of 51] by simp
    ultimately have "a * n \<le> 5 / 8 * pow2 (- 1075)" by (simp add: a_def)
    then have e2: "\<bar>p - n\<bar> \<le> 5 / 8 * pow2 (- 1075)" using pn by linarith
    have "pow2 (- 1074) = 2 * pow2 (- 1075)" using pow2_add [of 1 "- 1075"] by (simp add: pow2_1)
    then have lt: "\<bar>d - n\<bar> < pow2 (- 1074)" using e1 e2 pow2_pos [of "- 1075"] by linarith
    obtain j :: int where j: "d = of_int j * pow2 (- 1074)"
      using round64_is_double [of p] d by (auto simp: is_double_def)
    have "\<bar>d - n\<bar> = \<bar>real_of_int (j - k)\<bar> * pow2 (- 1074)"
      using pow2_pos [of "- 1074"] by (simp add: j n(2) left_diff_distrib [symmetric] abs_mult)
    then have "\<bar>real_of_int (j - k)\<bar> * pow2 (- 1074) < 1 * pow2 (- 1074)" using lt by simp
    then have "\<bar>real_of_int (j - k)\<bar> < 1" using pow2_pos [of "- 1074"] by (simp only: mult_less_cancel_right_pos)
    then have "real_of_int \<bar>j - k\<bar> < of_int 1" by simp
    then have "\<bar>j - k\<bar> < 1" by (simp only: of_int_less_iff)
    then have "j = k" by simp
    then have "d = n" by (simp add: j n(2))
    then show ?thesis using n(1) by simp
  next
    case False
    have q: "pow2 (- 1022) = 4 * pow2 (- 1024)" using pow2_add [of 2 "- 1024"] pow2_nat [of 2] by simp
    have "max \<bar>p\<bar> (pow2 (- 1022)) \<le> 4 * n + a * n" using p_hi p_pos False an unfolding q by (simp add: max_def, linarith?)
    then have "u * max \<bar>p\<bar> (pow2 (- 1022)) \<le> u * (4 * n + a * n)" by (intro mult_left_mono) (simp_all add: u_def)
    then have "\<bar>d - n\<bar> \<le> u * (4 * n + a * n) + a * n" using dp pn by linarith
    also have "\<dots> = (u * (4 + a) + a) * n" by (simp add: algebra_simps)
    also have "\<dots> \<le> 27 / 2 ^ 55 * n" using n(1) by (intro mult_right_mono) (simp_all add: u_def a_def)
    finally show ?thesis .
  qed
  with fm show ?thesis by blast
qed

lemma cosine_loop_self:
  "cosine_loop v v (d, d, d) =
     (foldl (\<lambda>acc x. fadd acc (fmul x x)) d v, foldl (\<lambda>acc x. fadd acc (fmul x x)) d v,
      foldl (\<lambda>acc x. fadd acc (fmul x x)) d v)"
  by (induction v arbitrary: d) simp_all

lemma cosineSimilarity_self_unfold:
  "cosineSimilarity v v =
     (if fmul (fsqrt (squared_norm v)) (fsqrt (squared_norm v)) = Finite 0 then Finite 0
      else fdiv (squared_norm v) (fmul (fsqrt (squared_norm v)) (fsqrt (squared_norm v))))"
  by (simp add: cosineSimilarity_def cosine_loop_self squared_norm_def Let_def)

lemma fadd_Finite: "fadd a b = Finite n \<Longrightarrow> \<exists>x. round64 x = Finite n"
  by (cases a; cases b) auto

lemma squared_norm_Finite:
  assumes "squared_norm v = Finite n"
  shows "n = 0 \<or> (\<exists>x. round64 x = Finite n)"
proof (cases v rule: rev_cases)
  case Nil
  then show ?thesis using assms by (simp add: squared_norm_def)
next
  case (snoc xs x)
  then have "fadd (squared_norm xs) (fmul x x) = Finite n" using assms by (simp add: squared_norm_def)
  then show ?thesis using fadd_Finite by blast
qed

lemma cosine_self:
  assumes "squared_norm v = Finite n" "0 < n"
  shows "\<exists>r. cosineSimilarity v v = Finite r \<and> \<bar>r - 1\<bar> \<le> pow2 (- 50)"
proof -
  obtain x where x: "round64 x = Finite n" using squared_norm_Finite [OF assms(1)] assms(2) by auto
  obtain k :: int where k: "n = of_int k * pow2 (- 1074)"
    using round64_is_double [of x] x by (auto simp: is_double_def)
  have m: "n \<le> pow2 1024 - pow2 971" using round64_max [OF x] by simp
  obtain d where d: "fmul (fsqrt (Finite n)) (fsqrt (Finite n)) = Finite d"
    and dn: "\<bar>d - n\<bar> \<le> 27 / 2 ^ 55 * n"
    using self_denominator [OF assms(2) k m] by blast
  have "27 / 2 ^ 55 * n \<le> n / 32" using assms(2) by simp
  then have d_lo: "31 / 32 * n \<le> d" using dn by linarith
  then have d_pos: "0 < d" using assms(2) by linarith
  define q where "q = n / d"
  have q_pos: "0 < q" using assms(2) d_pos by (simp add: q_def)
  have q_hi: "q \<le> 32 / 31" using d_lo d_pos by (simp add: q_def pos_divide_le_eq)
  have "q - 1 = (n - d) / d" using d_pos by (simp add: q_def diff_divide_distrib)
  then have q1: "\<bar>q - 1\<bar> = \<bar>n - d\<bar> / d" using d_pos by (simp add: abs_divide)
  have nd: "\<bar>n - d\<bar> \<le> 27 / 2 ^ 55 * n" using dn by (simp only: abs_minus_commute)
  have "\<bar>n - d\<bar> / d \<le> (27 / 2 ^ 55 * n) / d"
    by (rule divide_right_mono [OF nd]) (use d_pos in simp)
  also have "\<dots> = 27 / 2 ^ 55 * q" by (simp add: q_def)
  finally have q2: "\<bar>q - 1\<bar> \<le> 27 / 2 ^ 55 * q" by (simp only: q1)
  have "27 / 2 ^ 55 * q \<le> q / 2" using q_pos by simp
  then have "1 / 2 \<le> q" using q2 by linarith
  have lo: "pow2 (- 1022) \<le> q"
  proof -
    have "pow2 (- 1022) \<le> pow2 (- 1)" by (rule pow2_mono) simp
    then show ?thesis using \<open>1 / 2 \<le> q\<close> by (simp add: pow2_neg1)
  qed
  have "\<bar>q\<bar> < pow2 1023"
  proof -
    have "pow2 1 \<le> pow2 1023" by (rule pow2_mono) simp
    then show ?thesis using q_hi q_pos by (simp add: pow2_1)
  qed
  then obtain r where r: "round64 q = Finite r" using round64_finite by blast
  have "max \<bar>q\<bar> (pow2 (- 1022)) = q" using lo q_pos by (simp add: max_def)
  moreover have "pow2 (- 53) = 1 / 2 ^ 53" using pow2_neg_nat [of 53] by simp
  ultimately have "\<bar>r - q\<bar> \<le> 1 / 2 ^ 53 * q" using round64_rel [OF r] by (simp only:)
  moreover have "1 / 2 ^ 53 * q + 27 / 2 ^ 55 * q = 31 / 2 ^ 55 * q" by simp
  ultimately have "\<bar>r - 1\<bar> \<le> 31 / 2 ^ 55 * q" using q2 by linarith
  also have "\<dots> \<le> 31 / 2 ^ 55 * (32 / 31)" using q_hi by (intro mult_left_mono) simp_all
  also have "\<dots> = pow2 (- 50)" using pow2_neg_nat [of 50] by simp
  finally have b: "\<bar>r - 1\<bar> \<le> pow2 (- 50)" .
  have "cosineSimilarity v v = Finite r"
    unfolding cosineSimilarity_self_unfold assms(1) d using d_pos r by (simp add: q_def)
  with b show ?thesis by blast
qed

lemma cosine_self_zero: "squared_norm v = Finite 0 \<Longrightarrow> cosineSimilarity v v = Finite 0"
  by (simp add: cosineSimilarity_self_unfold round64_0)

lemma cosine_self_NaN:
  "squared_norm v = PosInfinity \<or> squared_norm v = NaN \<Longrightarrow> cosineSimilarity v v = NaN"
  by (auto simp: cosineSimilarity_self_unfold)

subsection \<open>Decimal rendering is injective\<close>

lemma digit_val_digit: "d < 10 \<Longrightarrow> digit_val (digit d) = d"
  by (simp add: digit_val_def digit_def)

lemma of_char_digit: "d < 10 \<Longrightarrow> of_char (digit d) = (48 + d :: nat)"
  by (simp add: digit_def)

lemma digit_not_colon: "d < 10 \<Longrightarrow> digit d \<noteq> CHR '':''"
proof
  assume d: "d < 10" and e: "digit d = CHR '':''"
  have "of_char (digit d) = (58::nat)" by (simp add: e)
  with of_char_digit [OF d] show False using d by simp
qed

lemma digit_not_minus: "d < 10 \<Longrightarrow> digit d \<noteq> CHR ''-''"
proof
  assume d: "d < 10" and e: "digit d = CHR ''-''"
  have "of_char (digit d) = (45::nat)" by (simp add: e)
  with of_char_digit [OF d] show False by simp
qed

lemma show_nat_not_Nil: "show_nat n \<noteq> []"
  by (subst show_nat.simps) simp

lemma show_nat_chars: "c \<in> set (show_nat n) \<Longrightarrow> \<exists>d<10. c = digit d"
proof (induction n arbitrary: c rule: show_nat.induct)
  case (1 n)
  show ?case
  proof (cases "n < 10")
    case True
    with "1.prems" show ?thesis by (subst (asm) show_nat.simps) auto
  next
    case False
    from "1.prems" False have "c \<in> set (show_nat (n div 10)) \<or> c = digit (n mod 10)"
      by (subst (asm) show_nat.simps) auto
    then show ?thesis
    proof
      assume "c \<in> set (show_nat (n div 10))"
      with "1.IH" [OF False] show ?thesis .
    next
      assume "c = digit (n mod 10)"
      moreover have "n mod 10 < 10" by simp
      ultimately show ?thesis by blast
    qed
  qed
qed

lemma read_nat_snoc: "read_nat (s @ [c]) = 10 * read_nat s + digit_val c"
  by (simp add: read_nat_def)

lemma read_show_nat: "read_nat (show_nat n) = n"
proof (induction n rule: show_nat.induct)
  case (1 n)
  show ?case
  proof (cases "n < 10")
    case True
    then show ?thesis
      by (subst show_nat.simps) (simp add: read_nat_def digit_val_digit)
  next
    case False
    have "read_nat (show_nat n) = 10 * read_nat (show_nat (n div 10)) + digit_val (digit (n mod 10))"
      using False by (subst show_nat.simps) (simp add: read_nat_snoc)
    also have "\<dots> = 10 * (n div 10) + n mod 10"
      using "1.IH" [OF False] by (simp add: digit_val_digit)
    finally show ?thesis by simp
  qed
qed

lemma hd_show_nat_not_minus: "hd (show_nat n) \<noteq> CHR ''-''"
proof -
  have "hd (show_nat n) \<in> set (show_nat n)" by (simp add: show_nat_not_Nil)
  then obtain d where "d < 10" "hd (show_nat n) = digit d" using show_nat_chars by blast
  then show ?thesis by (simp add: digit_not_minus)
qed

lemma read_show_int: "read_int (show_int i) = i"
proof (cases "i < 0")
  case True
  then show ?thesis by (simp add: read_int_def show_int_def read_show_nat)
next
  case False
  obtain c cs where s: "show_nat (nat i) = c # cs"
    using show_nat_not_Nil [of "nat i"] by (cases "show_nat (nat i)") auto
  have "c \<noteq> CHR ''-''" using hd_show_nat_not_minus [of "nat i"] s by simp
  moreover have "read_nat (c # cs) = nat i" using read_show_nat [of "nat i"] s by simp
  ultimately show ?thesis using False s by (simp add: read_int_def show_int_def)
qed

lemma show_int_inj: "show_int a = show_int b \<Longrightarrow> a = b"
  by (metis read_show_int)

lemma colon_notin_show_int: "CHR '':'' \<notin> set (show_int i)"
proof
  assume "CHR '':'' \<in> set (show_int i)"
  then have "CHR '':'' \<in> set (show_nat (nat (- i))) \<or> CHR '':'' \<in> set (show_nat (nat i))"
    by (auto simp: show_int_def split: if_splits)
  then obtain d where "d < 10" "CHR '':'' = digit d" using show_nat_chars by blast
  then show False using digit_not_colon by metis
qed

lemma takeWhile_id: "takeWhile (\<lambda>c. c \<noteq> CHR '':'') (show_int a @ '':'' @ r) = show_int a"
proof -
  have "\<forall>c\<in>set (show_int a). c \<noteq> CHR '':''" using colon_notin_show_int [of a] by metis
  then show ?thesis by (simp add: takeWhile_tail)
qed

lemma ayahId_inj:
  assumes "show_int a @ '':'' @ show_int b = show_int a' @ '':'' @ show_int b'"
  shows "a = a' \<and> b = b'"
proof -
  have "show_int a = show_int a'"
    using takeWhile_id [of a "show_int b"] takeWhile_id [of a' "show_int b'"] assms by simp
  then have a: "a = a'" by (rule show_int_inj)
  with assms have "show_int b = show_int b'" by simp
  then show ?thesis using a show_int_inj by blast
qed

subsection \<open>The corpus index\<close>

lemma foldl_push: "foldl (\<lambda>acc s. acc @ f s) a gs = a @ concat (map f gs)"
  by (induction gs arbitrary: a) simp_all

lemma build_verses_concat: "build_verses render gs = concat (map (surah_verses render) gs)"
  by (simp add: build_verses_def foldl_push)

lemma length_surah_verses: "length (surah_verses render s) = length (content_or_empty s)"
  by (simp add: surah_verses_def)

lemma nth_surah_verses:
  "i < length (content_or_empty s) \<Longrightarrow>
   surah_verses render s ! i = make_verse render s i (content_or_empty s ! i)"
  by (simp add: surah_verses_def nth_enumerate_eq)

lemma length_build_verses:
  "length (build_verses render gs) = sum_list (map (\<lambda>s. length (content_or_empty s)) gs)"
  by (induction gs) (simp_all add: build_verses_concat length_surah_verses)

lemma nth_build_verses:
  "j < length gs \<Longrightarrow> i < length (content_or_empty (gs ! j)) \<Longrightarrow>
   build_verses render gs ! (offset gs j + i) = make_verse render (gs ! j) i (content_or_empty (gs ! j) ! i)"
proof (induction gs arbitrary: j)
  case Nil
  then show ?case by simp
next
  case (Cons g gs)
  show ?case
  proof (cases j)
    case 0
    with Cons.prems show ?thesis
      by (simp add: build_verses_concat offset_def nth_append length_surah_verses nth_surah_verses)
  next
    case (Suc k)
    with Cons.prems have k: "k < length gs" "i < length (content_or_empty (gs ! k))" by simp_all
    have "offset (g # gs) j = length (surah_verses render g) + offset gs k"
      by (simp add: Suc offset_def length_surah_verses)
    then have "build_verses render (g # gs) ! (offset (g # gs) j + i) = build_verses render gs ! (offset gs k + i)"
      by (simp add: build_verses_concat nth_append)
    with Cons.IH [OF k] show ?thesis by (simp add: Suc)
  qed
qed

lemma set_ids_surah:
  "set (map ayahId (surah_verses show_int s)) =
   (\<lambda>i. show_int (number s) @ '':'' @ show_int (int i + 1)) ` {..<length (content_or_empty s)}"
proof -
  have "map ayahId (surah_verses show_int s) =
        map (\<lambda>i. show_int (number s) @ '':'' @ show_int (int i + 1)) [0..<length (content_or_empty s)]"
    by (rule nth_equalityI) (simp_all add: length_surah_verses nth_surah_verses make_verse_def number_toString_def)
  then show ?thesis by (simp add: lessThan_atLeast0)
qed

lemma distinct_ids_surah: "distinct (map ayahId (surah_verses show_int s))"
proof -
  have e: "map ayahId (surah_verses show_int s) =
        map (\<lambda>i. show_int (number s) @ '':'' @ show_int (int i + 1)) [0..<length (content_or_empty s)]"
    by (rule nth_equalityI) (simp_all add: length_surah_verses nth_surah_verses make_verse_def number_toString_def)
  have "inj_on (\<lambda>i. show_int (number s) @ '':'' @ show_int (int i + 1)) (set [0..<length (content_or_empty s)])"
    by (rule inj_onI) (auto dest!: show_int_inj)
  then show ?thesis unfolding e by (simp add: distinct_map)
qed

lemma ids_disjoint_iff:
  "set (map ayahId (surah_verses show_int g)) \<inter> set (map ayahId (build_verses show_int gs)) = {} \<longleftrightarrow>
   \<not> has_content g \<or> number g \<notin> set (map number (filter has_content gs))"
proof (induction gs)
  case Nil
  then show ?case by (simp add: build_verses_concat)
next
  case (Cons h gs)
  have one: "set (map ayahId (surah_verses show_int g)) \<inter> set (map ayahId (surah_verses show_int h)) = {} \<longleftrightarrow>
        \<not> has_content g \<or> \<not> has_content h \<or> number g \<noteq> number h"
  proof
    assume d: "set (map ayahId (surah_verses show_int g)) \<inter> set (map ayahId (surah_verses show_int h)) = {}"
    show "\<not> has_content g \<or> \<not> has_content h \<or> number g \<noteq> number h"
    proof (rule ccontr)
      assume "\<not> ?thesis"
      then have c: "0 < length (content_or_empty g)" "0 < length (content_or_empty h)"
        and n: "number g = number h" by (simp_all add: has_content_def)
      have "show_int (number g) @ '':'' @ show_int (int 0 + 1) \<in> set (map ayahId (surah_verses show_int g))"
        unfolding set_ids_surah using c by blast
      moreover have "show_int (number g) @ '':'' @ show_int (int 0 + 1) \<in> set (map ayahId (surah_verses show_int h))"
        unfolding set_ids_surah n using c by blast
      ultimately show False using d by blast
    qed
  next
    assume a: "\<not> has_content g \<or> \<not> has_content h \<or> number g \<noteq> number h"
    show "set (map ayahId (surah_verses show_int g)) \<inter> set (map ayahId (surah_verses show_int h)) = {}"
    proof (rule ccontr)
      assume "\<not> ?thesis"
      then obtain x where "x \<in> set (map ayahId (surah_verses show_int g))" "x \<in> set (map ayahId (surah_verses show_int h))"
        by blast
      then obtain i j where i: "i < length (content_or_empty g)" and j: "j < length (content_or_empty h)"
        and "show_int (number g) @ '':'' @ show_int (int i + 1) = show_int (number h) @ '':'' @ show_int (int j + 1)"
        unfolding set_ids_surah by auto
      then have "number g = number h" using ayahId_inj by blast
      moreover have "has_content g" "has_content h" using i j by (auto simp: has_content_def)
      ultimately show False using a by simp
    qed
  qed
  have "set (map ayahId (build_verses show_int (h # gs))) =
        set (map ayahId (surah_verses show_int h)) \<union> set (map ayahId (build_verses show_int gs))"
    by (simp add: build_verses_concat)
  then have "set (map ayahId (surah_verses show_int g)) \<inter> set (map ayahId (build_verses show_int (h # gs))) = {} \<longleftrightarrow>
     set (map ayahId (surah_verses show_int g)) \<inter> set (map ayahId (surah_verses show_int h)) = {} \<and>
     set (map ayahId (surah_verses show_int g)) \<inter> set (map ayahId (build_verses show_int gs)) = {}"
    by (simp add: Int_Un_distrib)
  then show ?case unfolding one Cons.IH by auto
qed

lemma distinct_ids_iff:
  "distinct (map ayahId (build_verses show_int gs)) \<longleftrightarrow> distinct (map number (filter has_content gs))"
proof (induction gs)
  case Nil
  then show ?case by (simp add: build_verses_concat)
next
  case (Cons g gs)
  have "distinct (map ayahId (build_verses show_int (g # gs))) \<longleftrightarrow>
        distinct (map ayahId (build_verses show_int gs)) \<and>
        set (map ayahId (surah_verses show_int g)) \<inter> set (map ayahId (build_verses show_int gs)) = {}"
    using distinct_ids_surah [of g] by (simp add: build_verses_concat)
  then show ?case unfolding ids_disjoint_iff Cons.IH by auto
qed

lemma number_toString_safe: "isSafeInteger n \<Longrightarrow> number_toString render n = show_int n"
  by (simp add: number_toString_def)

lemma surah_verses_safe:
  "isSafeInteger (number s) \<Longrightarrow> surah_verses render s = surah_verses show_int s"
  by (simp add: surah_verses_def make_verse_def number_toString_def)

lemma build_verses_safe:
  "\<forall>g\<in>set gs. isSafeInteger (number g) \<Longrightarrow> build_verses render gs = build_verses show_int gs"
proof -
  assume a: "\<forall>g\<in>set gs. isSafeInteger (number g)"
  have "map (surah_verses render) gs = map (surah_verses show_int) gs"
  proof (rule map_cong [OF refl])
    fix g
    assume "g \<in> set gs"
    then have "isSafeInteger (number g)" using a by blast
    then show "surah_verses render g = surah_verses show_int g" by (rule surah_verses_safe)
  qed
  then show ?thesis by (simp only: build_verses_concat)
qed

lemma distinct_ids_safe:
  "\<forall>g\<in>set gs. isSafeInteger (number g) \<Longrightarrow>
   distinct (map ayahId (build_verses render gs)) \<longleftrightarrow> distinct (map number (filter has_content gs))"
  using build_verses_safe [of gs render] distinct_ids_iff [of gs] by simp

subsection \<open>Strings and slices\<close>

lemma slice0_nonneg: "0 \<le> k \<Longrightarrow> slice0 xs k = take (nat k) xs"
  by (simp add: slice0_def)

lemma set_slice0: "set (slice0 xs k) \<subseteq> set xs"
  by (auto simp: slice0_def dest: in_set_takeD)

lemma length_slice0_nonneg: "0 \<le> k \<Longrightarrow> int (length (slice0 xs k)) \<le> k"
  by (simp add: slice0_def)

lemma length_slice0:
  "int (length (slice0 xs k)) = (if k < 0 then max 0 (int (length xs) + k) else min k (int (length xs)))"
  by (auto simp: slice0_def min_def)

lemma sorted_slice0: "sorted_wrt R xs \<Longrightarrow> sorted_wrt R (slice0 xs k)"
  by (simp add: slice0_def)

lemma slice0_200: "slice0 t 200 = take 200 t"
  by (simp add: slice0_def)

lemma pool_take: "slice0 vs MAX_VERSES_TO_EMBED = take 80 vs"
  by (simp add: slice0_def MAX_VERSES_TO_EMBED_def)

lemma all_whitespace_trim: "\<forall>c\<in>set s. isWhiteSpace c \<Longrightarrow> trim s = []"
proof -
  assume "\<forall>c\<in>set s. isWhiteSpace c"
  then have d: "dropWhile isWhiteSpace s = []" by simp
  show ?thesis unfolding trim_def d by simp
qed

subsection \<open>Embedding calls and their effects\<close>

lemma embed_start_verses: "verses (snd (embed_start P t w)) = verses w"
  by (simp add: embed_start_def Let_def split: option.splits)

lemma embed_start_cache: "embeddingCache (snd (embed_start P t w)) = embeddingCache w"
  by (simp add: embed_start_def Let_def split: option.splits)

lemma embed_start_inFlight: "inFlight (snd (embed_start P t w)) = inFlight w"
  by (simp add: embed_start_def Let_def split: option.splits)

lemma embed_start_requests:
  "\<exists>new. requests (snd (embed_start P t w)) = requests w @ new \<and> set new \<subseteq> {t}"
  by (simp add: embed_start_def Let_def split: option.splits)

lemma embed_start_cases:
  "(\<exists>cached. embed_start P t w = (Resolved cached, w)) \<or>
   (\<exists>key. embed_start P t w =
      (InFlight key (P (length (requests w)) t), w\<lparr>requests := requests w @ [t]\<rparr>))"
  by (cases "embeddingCache w (slice0 t 200)") (simp_all add: embed_start_def Let_def)

lemma finish_verses: "verses (finish c w) = verses w"
  by (cases c) (simp_all split: option.splits sum.splits)

lemma finish_requests: "requests (finish c w) = requests w"
  by (cases c) (simp_all split: option.splits sum.splits)

lemma finish_inFlight: "inFlight (finish c w) = inFlight w"
  by (cases c) (simp_all split: option.splits sum.splits)

lemma fold_finish_verses: "verses (fold finish cs w) = verses w"
  by (induction cs arbitrary: w) (simp_all add: finish_verses)

lemma fold_finish_requests: "requests (fold finish cs w) = requests w"
  by (induction cs arbitrary: w) (simp_all add: finish_requests)

lemma embed_verses: "verses (snd (embed P t w)) = verses w"
  using embed_start_verses [of P t w]
  by (simp add: embed_def split_beta finish_verses split: option.splits)

lemma embed_requests:
  "\<exists>new. requests (snd (embed P t w)) = requests w @ new \<and> set new \<subseteq> {t}"
  using embed_start_requests [of P t w]
  by (simp add: embed_def split_beta finish_requests split: option.splits)

lemma embed_cases:
  "(\<exists>cached. embeddingCache w (take 200 t) = Some cached \<and> embed P t w = (Some (Inr cached), w)) \<or>
   (embeddingCache w (take 200 t) = None \<and>
    fst (embed P t w) = vector_of (P (length (requests w)) t) \<and>
    requests (snd (embed P t w)) = requests w @ [t])"
  by (cases "embeddingCache w (take 200 t)")
     (simp_all add: embed_def embed_start_def slice0_200 split: option.splits sum.splits)

lemma embed_hit:
  "embeddingCache w (take 200 t) = Some cached \<Longrightarrow> embed P t w = (Some (Inr cached), w)"
  by (simp add: embed_def embed_start_def slice0_200)

lemma embed_stores:
  "embed P t w = (Some (Inr vec), w') \<Longrightarrow> embeddingCache w' (take 200 t) = Some vec"
  by (cases "embeddingCache w (take 200 t)")
     (auto simp: embed_def embed_start_def slice0_200 split: option.splits sum.splits)

lemma embed_failure_stores_nothing:
  "fst (embed P t w) = Some (Inl e) \<Longrightarrow> embeddingCache (snd (embed P t w)) = embeddingCache w"
  by (cases "embeddingCache w (take 200 t)")
     (auto simp: embed_def embed_start_def slice0_200 split: option.splits sum.splits)

lemma embed_pending_stores_nothing:
  "fst (embed P t w) = None \<Longrightarrow> embeddingCache (snd (embed P t w)) = embeddingCache w"
  by (cases "embeddingCache w (take 200 t)")
     (auto simp: embed_def embed_start_def slice0_200 split: option.splits sum.splits)

lemma embed_one_request: "length (requests (snd (embed P t w))) \<le> length (requests w) + 1"
  using embed_cases [of w t P] by auto

lemma embed_pending:
  "fst (embed P t w) = None \<Longrightarrow>
   embeddingCache w (take 200 t) = None \<and> P (length (requests w)) t = NoResponse \<and>
   requests (snd (embed P t w)) = requests w @ [t]"
proof -
  assume a: "fst (embed P t w) = None"
  from embed_cases [of w t P] a
  have "embeddingCache w (take 200 t) = None" "vector_of (P (length (requests w)) t) = None"
    "requests (snd (embed P t w)) = requests w @ [t]"
    by auto
  moreover have "vector_of r = None \<Longrightarrow> r = NoResponse" for r
    by (cases r rule: vector_of.cases) simp_all
  ultimately show ?thesis by blast
qed

lemma start_all_length: "length (fst (start_all P ts w)) = length ts"
  by (induction ts arbitrary: w) (simp_all add: split_beta)

lemma start_all_verses: "verses (snd (start_all P ts w)) = verses w"
  by (induction ts arbitrary: w) (simp_all add: split_beta embed_start_verses)

lemma start_all_requests:
  "\<exists>new. requests (snd (start_all P ts w)) = requests w @ new \<and> set new \<subseteq> set ts"
proof (induction ts arbitrary: w)
  case Nil
  then show ?case by simp
next
  case (Cons t ts)
  obtain n1 where n1: "requests (snd (embed_start P t w)) = requests w @ n1" "set n1 \<subseteq> {t}"
    using embed_start_requests by blast
  obtain n2 where n2: "requests (snd (start_all P ts (snd (embed_start P t w)))) =
      requests (snd (embed_start P t w)) @ n2" "set n2 \<subseteq> set ts"
    using Cons.IH by blast
  have "requests (snd (start_all P (t # ts) w)) = requests w @ (n1 @ n2)"
    using n1 n2 by (simp add: split_beta)
  moreover have "set (n1 @ n2) \<subseteq> set (t # ts)" using n1 n2 by auto
  ultimately show ?case by blast
qed

lemma start_all_misses:
  "\<forall>t\<in>set ts. embeddingCache w (take 200 t) = None \<Longrightarrow>
   start_all P ts w =
     (map (\<lambda>(i, t). InFlight (take 200 t) (P (length (requests w) + i) t)) (enumerate 0 ts),
      w\<lparr>requests := requests w @ ts\<rparr>)"
proof (induction ts arbitrary: w)
  case Nil
  then show ?case by simp
next
  case (Cons t ts)
  define w1 where "w1 = w\<lparr>requests := requests w @ [t]\<rparr>"
  have e: "embed_start P t w = (InFlight (take 200 t) (P (length (requests w)) t), w1)"
    using Cons.prems by (simp add: embed_start_def slice0_200 w1_def)
  have "\<forall>t\<in>set ts. embeddingCache w1 (take 200 t) = None" using Cons.prems by (simp add: w1_def)
  from Cons.IH [OF this]
  have "start_all P ts w1 =
     (map (\<lambda>(i, t). InFlight (take 200 t) (P (length (requests w) + Suc i) t)) (enumerate 0 ts),
      w\<lparr>requests := requests w @ t # ts\<rparr>)"
    by (simp add: w1_def)
  moreover have "map (\<lambda>(i, t). InFlight (take 200 t) (P (length (requests w) + Suc i) t)) (enumerate 0 ts)
      = map (\<lambda>(i, t). InFlight (take 200 t) (P (length (requests w) + i) t)) (enumerate (Suc 0) ts)"
    by (rule nth_equalityI) (simp_all add: nth_enumerate_eq)
  ultimately show ?case using e by (simp add: enumerate_Suc_eq)
qed

lemma start_all_inflight:
  "requests (snd (start_all P ts w)) = requests w @ new \<Longrightarrow> n < length new \<Longrightarrow>
   \<exists>key. InFlight key (P (length (requests w) + n) (new ! n)) \<in> set (fst (start_all P ts w))"
proof (induction ts arbitrary: w new n)
  case Nil
  then show ?case by simp
next
  case (Cons t ts)
  from embed_start_cases [of P t w] show ?case
  proof (elim disjE exE)
    fix cached
    assume e: "embed_start P t w = (Resolved cached, w)"
    then have "requests (snd (start_all P ts w)) = requests w @ new"
      using Cons.prems(1) by (simp add: split_beta)
    from Cons.IH [OF this Cons.prems(2)] show ?thesis using e by (auto simp: split_beta)
  next
    fix key
    assume e: "embed_start P t w =
      (InFlight key (P (length (requests w)) t), w\<lparr>requests := requests w @ [t]\<rparr>)"
    define w1 where "w1 = w\<lparr>requests := requests w @ [t]\<rparr>"
    obtain new' where n': "requests (snd (start_all P ts w1)) = requests w1 @ new'"
      using start_all_requests [of P ts w1] by blast
    have "requests (snd (start_all P (t # ts) w)) = requests w @ t # new'"
      using e n' by (simp add: split_beta w1_def)
    with Cons.prems(1) have new: "new = t # new'" by simp
    show ?thesis
    proof (cases n)
      case 0
      then show ?thesis using e new by (auto simp: split_beta)
    next
      case (Suc m)
      with Cons.prems(2) new have "m < length new'" by simp
      from Cons.IH [OF n' this]
      obtain k where "InFlight k (P (length (requests w1) + m) (new' ! m)) \<in> set (fst (start_all P ts w1))"
        by blast
      then show ?thesis using e new Suc by (auto simp: split_beta w1_def)
    qed
  qed
qed

lemma start_all_calls:
  "c \<in> set (fst (start_all P ts w)) \<Longrightarrow>
   (\<exists>cached. c = Resolved cached) \<or>
   (\<exists>key n. c = InFlight key (P n (requests (snd (start_all P ts w)) ! n)) \<and>
             length (requests w) \<le> n \<and> n < length (requests (snd (start_all P ts w))))"
proof (induction ts arbitrary: w)
  case Nil
  then show ?case by simp
next
  case (Cons t ts)
  from embed_start_cases [of P t w] show ?case
  proof (elim disjE exE)
    fix cached
    assume e: "embed_start P t w = (Resolved cached, w)"
    then have s: "start_all P (t # ts) w = (Resolved cached # fst (start_all P ts w), snd (start_all P ts w))"
      by (simp add: split_beta)
    show ?thesis
    proof (cases "c = Resolved cached")
      case True
      then show ?thesis by blast
    next
      case False
      then have "c \<in> set (fst (start_all P ts w))" using Cons.prems s by simp
      from Cons.IH [OF this] show ?thesis unfolding s by simp
    qed
  next
    fix key
    assume e: "embed_start P t w =
      (InFlight key (P (length (requests w)) t), w\<lparr>requests := requests w @ [t]\<rparr>)"
    define w1 where "w1 = w\<lparr>requests := requests w @ [t]\<rparr>"
    obtain new where new: "requests (snd (start_all P ts w1)) = requests w1 @ new"
      using start_all_requests [of P ts w1] by blast
    then have rq: "requests (snd (start_all P ts w1)) = requests w @ t # new" by (simp add: w1_def)
    have s: "start_all P (t # ts) w =
        (InFlight key (P (length (requests w)) t) # fst (start_all P ts w1), snd (start_all P ts w1))"
      using e by (simp add: split_beta w1_def)
    show ?thesis
    proof (cases "c = InFlight key (P (length (requests w)) t)")
      case True
      have "requests (snd (start_all P ts w1)) ! length (requests w) = t" by (simp add: rq)
      moreover have "length (requests w) < length (requests (snd (start_all P ts w1)))" by (simp add: rq)
      ultimately have "c = InFlight key (P (length (requests w))
                           (requests (snd (start_all P ts w1)) ! length (requests w))) \<and>
          length (requests w) \<le> length (requests w) \<and>
          length (requests w) < length (requests (snd (start_all P ts w1)))"
        using True by simp
      then show ?thesis unfolding s snd_conv by blast
    next
      case False
      then have "c \<in> set (fst (start_all P ts w1))" using Cons.prems s by simp
      from Cons.IH [OF this] show ?thesis
      proof (elim disjE exE conjE)
        fix cached
        assume "c = Resolved cached"
        then show ?thesis by blast
      next
        fix k n
        assume "c = InFlight k (P n (requests (snd (start_all P ts w1)) ! n))"
          "length (requests w1) \<le> n" "n < length (requests (snd (start_all P ts w1)))"
        then show ?thesis unfolding s by (auto simp: w1_def)
      qed
    qed
  qed
qed

lemma set_completion_order:
  "set (completion_order arrival cs) = {ic \<in> set (enumerate 0 cs). settles (snd ic)}"
  by (auto simp: completion_order_def)

lemma completion_order_calls:
  "snd ` set (completion_order arrival cs) = {c \<in> set cs. settles c}"
proof -
  have "snd ` set (enumerate 0 cs) = set (map snd (enumerate 0 cs))" by (simp only: set_map)
  then have "snd ` set (enumerate 0 cs) = set cs" by (simp only: map_snd_enumerate)
  then show ?thesis unfolding set_completion_order by (auto simp: image_iff)
qed

lemma rejected_settles: "rejected c \<Longrightarrow> settles c"
  by (auto simp: rejected_def settles_def split: option.splits)

lemma first_rejection_None: "first_rejection xs = None \<longleftrightarrow> (\<forall>ic\<in>set xs. \<not> rejected (snd ic))"
  by (induction xs rule: first_rejection.induct) (auto simp: rejected_def split: option.splits sum.splits)

lemma first_rejection_completion:
  "first_rejection (completion_order arrival cs) = None \<longleftrightarrow> (\<forall>c\<in>set cs. \<not> rejected c)"
proof -
  have "(\<forall>ic\<in>set (completion_order arrival cs). \<not> rejected (snd ic)) \<longleftrightarrow>
        (\<forall>c\<in>snd ` set (completion_order arrival cs). \<not> rejected c)"
    by auto
  also have "\<dots> \<longleftrightarrow> (\<forall>c\<in>set cs. \<not> rejected c)"
    unfolding completion_order_calls using rejected_settles by auto
  finally show ?thesis by (simp only: first_rejection_None)
qed

lemma no_rejection: "list_all (\<lambda>c. \<not> rejected c) cs \<Longrightarrow> first_rejection (completion_order arrival cs) = None"
  by (simp add: first_rejection_completion list_all_iff)

lemma fulfilments_all:
  "\<forall>c\<in>set cs. settles c \<and> \<not> rejected c \<Longrightarrow> length (fulfilments cs) = length cs"
  by (induction cs)
     (auto simp: fulfilments_def rejected_def settles_def List.map_filter_simps split: option.splits sum.splits)

lemma all_fulfilled:
  "\<forall>c\<in>set cs. outcome c = Some (Inr vec) \<Longrightarrow>
   list_all (\<lambda>c. \<not> rejected c) cs \<and> list_all settles cs \<and> fulfilments cs = replicate (length cs) vec"
  by (induction cs) (simp_all add: rejected_def settles_def fulfilments_def List.map_filter_simps)

lemma inflight_failure_rejects:
  "InFlight key r \<in> set cs \<Longrightarrow> vector_of r = Some (Inl err) \<Longrightarrow>
   first_rejection (completion_order arrival cs) \<noteq> None"
proof -
  assume a: "InFlight key r \<in> set cs" "vector_of r = Some (Inl err)"
  then have "rejected (InFlight key r)" by (simp add: rejected_def)
  then show ?thesis using a(1) first_rejection_completion by blast
qed

lemma promise_all_result:
  "fst (promise_all arrival cs w) =
     (case first_rejection (completion_order arrival cs) of
        Some (i, e) \<Rightarrow> Some (Inl e)
      | None \<Rightarrow> if list_all settles cs then Some (Inr (fulfilments cs)) else None)"
  by (simp add: promise_all_def Let_def split: option.splits)

lemma promise_all_verses: "verses (snd (promise_all arrival cs w)) = verses w"
  by (simp add: promise_all_def Let_def fold_finish_verses split: option.splits)

lemma promise_all_requests: "requests (snd (promise_all arrival cs w)) = requests w"
  by (simp add: promise_all_def Let_def fold_finish_requests split: option.splits)

subsection \<open>The two paths of the search\<close>

lemma scored_pool_fst:
  "fst (scored_pool P arrival q pool w) =
     (case fst (embed P q w) of
        None \<Rightarrow> None
      | Some (Inl e) \<Rightarrow> Some (Inl e)
      | Some (Inr qe) \<Rightarrow>
          (case first_rejection (completion_order arrival
                  (fst (start_all P (map text' pool) (snd (embed P q w))))) of
             Some (i, e) \<Rightarrow> Some (Inl e)
           | None \<Rightarrow>
               if list_all settles (fst (start_all P (map text' pool) (snd (embed P q w))))
               then Some (Inr (map2 (\<lambda>v vec. \<lparr>verse = v, score = cosineSimilarity qe vec\<rparr>) pool
                        (fulfilments (fst (start_all P (map text' pool) (snd (embed P q w)))))))
               else None))"
proof (cases "embed P q w")
  case (Pair r w1)
  obtain cs w2 where s: "start_all P (map text' pool) w1 = (cs, w2)" by (cases "start_all P (map text' pool) w1")
  obtain r3 w3 where p: "promise_all arrival cs w2 = (r3, w3)" by (cases "promise_all arrival cs w2")
  have r3: "r3 = (case first_rejection (completion_order arrival cs) of
        Some (i, e) \<Rightarrow> Some (Inl e)
      | None \<Rightarrow> if list_all settles cs then Some (Inr (fulfilments cs)) else None)"
    using promise_all_result [of arrival cs w2] p by simp
  show ?thesis using Pair s p r3
    by (simp add: scored_pool_def Let_def split: option.splits sum.splits prod.splits)
qed

lemma semantic_path_fst:
  "fst (semantic_path P arrival rank q topK pool w) =
     (case fst (scored_pool P arrival q pool w) of
        None \<Rightarrow> None
      | Some (Inl e) \<Rightarrow> Some (Inl e)
      | Some (Inr scored) \<Rightarrow> Some (Inr (slice0 (sort_scored rank scored) topK)))"
  by (simp add: semantic_path_def split: prod.splits option.splits sum.splits)

lemma semantic_path_snd:
  "snd (semantic_path P arrival rank q topK pool w) = snd (scored_pool P arrival q pool w)"
  by (simp add: semantic_path_def split: prod.splits option.splits sum.splits)

lemma scored_pool_verses: "verses (snd (scored_pool P arrival q pool w)) = verses w"
proof (cases "embed P q w")
  case (Pair r w1)
  have v1: "verses w1 = verses w" using embed_verses [of P q w] Pair by simp
  obtain cs w2 where s: "start_all P (map text' pool) w1 = (cs, w2)" by (cases "start_all P (map text' pool) w1")
  obtain r3 w3 where p: "promise_all arrival cs w2 = (r3, w3)" by (cases "promise_all arrival cs w2")
  have "verses w2 = verses w1" using start_all_verses [of P "map text' pool" w1] s by simp
  moreover have "verses w3 = verses w2" using promise_all_verses [of arrival cs w2] p by simp
  ultimately show ?thesis using Pair s p v1
    by (simp add: scored_pool_def Let_def split: option.splits sum.splits)
qed

lemma semantic_path_verses: "verses (snd (semantic_path P arrival rank q topK pool w)) = verses w"
  by (simp add: semantic_path_snd scored_pool_verses)

lemma scored_pool_snd_requests:
  "requests (snd (scored_pool P arrival q pool w)) =
     (case fst (embed P q w) of
        Some (Inr qe) \<Rightarrow> requests (snd (start_all P (map text' pool) (snd (embed P q w))))
      | _ \<Rightarrow> requests (snd (embed P q w)))"
proof (cases "embed P q w")
  case (Pair r w1)
  obtain cs w2 where s: "start_all P (map text' pool) w1 = (cs, w2)" by (cases "start_all P (map text' pool) w1")
  obtain r3 w3 where p: "promise_all arrival cs w2 = (r3, w3)" by (cases "promise_all arrival cs w2")
  have "requests w3 = requests w2" using promise_all_requests [of arrival cs w2] p by simp
  then show ?thesis using Pair s p
    by (simp add: scored_pool_def Let_def split: option.splits sum.splits)
qed

lemma semantic_path_snd_requests:
  "requests (snd (semantic_path P arrival rank q topK pool w)) =
     (case fst (embed P q w) of
        Some (Inr qe) \<Rightarrow> requests (snd (start_all P (map text' pool) (snd (embed P q w))))
      | _ \<Rightarrow> requests (snd (embed P q w)))"
  by (simp add: semantic_path_snd scored_pool_snd_requests)

lemma semantic_path_requests:
  "\<exists>new. requests (snd (semantic_path P arrival rank q topK pool w)) = requests w @ new
         \<and> set new \<subseteq> insert q (text' ` set pool)"
proof -
  obtain n1 where n1: "requests (snd (embed P q w)) = requests w @ n1" "set n1 \<subseteq> {q}"
    using embed_requests [of P q w] by auto
  obtain n2 where n2: "requests (snd (start_all P (map text' pool) (snd (embed P q w)))) =
      requests (snd (embed P q w)) @ n2" "set n2 \<subseteq> set (map text' pool)"
    using start_all_requests [of P "map text' pool" "snd (embed P q w)"] by auto
  have a: "set n1 \<subseteq> insert q (text' ` set pool)" using n1 by auto
  have b: "set (n1 @ n2) \<subseteq> insert q (text' ` set pool)" using n1 n2 by auto
  have "requests (snd (semantic_path P arrival rank q topK pool w)) = requests w @ n1 \<or>
        requests (snd (semantic_path P arrival rank q topK pool w)) = requests w @ (n1 @ n2)"
    using n1 n2 by (simp add: semantic_path_snd_requests split: option.splits sum.splits)
  then show ?thesis using a b by blast
qed

lemma scored_pool_success:
  assumes "fst (scored_pool P arrival q pool w) = Some (Inr scored)"
  shows "\<exists>qe. fst (embed P q w) = Some (Inr qe) \<and>
           (\<forall>c\<in>set (fst (start_all P (map text' pool) (snd (embed P q w)))). settles c \<and> \<not> rejected c) \<and>
           scored = map2 (\<lambda>v vec. \<lparr>verse = v, score = cosineSimilarity qe vec\<rparr>) pool
                      (fulfilments (fst (start_all P (map text' pool) (snd (embed P q w)))))"
proof -
  define cs where "cs = fst (start_all P (map text' pool) (snd (embed P q w)))"
  obtain qe where qe: "fst (embed P q w) = Some (Inr qe)"
    using assms by (auto simp: scored_pool_fst split: option.splits sum.splits)
  have f: "first_rejection (completion_order arrival cs) = None"
    using assms qe by (auto simp: scored_pool_fst cs_def split: option.splits if_splits)
  then have a: "list_all settles cs"
    and sc: "scored = map2 (\<lambda>v vec. \<lparr>verse = v, score = cosineSimilarity qe vec\<rparr>) pool (fulfilments cs)"
    using assms qe by (auto simp: scored_pool_fst cs_def split: if_splits)
  have "\<forall>c\<in>set cs. \<not> rejected c" using f by (simp only: first_rejection_completion)
  then show ?thesis using qe a sc by (auto simp: cs_def list_all_iff)
qed

lemma scored_pool_shape:
  assumes "fst (scored_pool P arrival q pool w) = Some (Inr scored)"
  shows "map verse scored = pool" and "\<forall>r\<in>set scored. is_double (score r)"
proof -
  define cs where "cs = fst (start_all P (map text' pool) (snd (embed P q w)))"
  obtain qe where ok: "\<forall>c\<in>set cs. settles c \<and> \<not> rejected c"
    and sc: "scored = map2 (\<lambda>v vec. \<lparr>verse = v, score = cosineSimilarity qe vec\<rparr>) pool (fulfilments cs)"
    using scored_pool_success [OF assms] cs_def by blast
  have "length cs = length pool" by (simp add: cs_def start_all_length)
  then have l: "length (fulfilments cs) = length pool" using fulfilments_all [OF ok] by simp
  have "map verse scored = map fst (zip pool (fulfilments cs))"
    unfolding sc by (simp add: split_beta comp_def)
  then show "map verse scored = pool" using l by simp
  show "\<forall>r\<in>set scored. is_double (score r)"
    unfolding sc by (auto simp: cosineSimilarity_is_double)
qed

lemma sort_scored_stable:
  "\<forall>r\<in>set xs. is_double (score r) \<and> score r \<noteq> NaN \<Longrightarrow>
   sort_scored rank xs = stable_sort (\<lambda>a b. fsub (score b) (score a)) xs"
  unfolding sort_scored_def by (rule array_sort_scores)

lemma sorted_sort_scored:
  "\<forall>r\<in>set xs. is_double (score r) \<and> score r \<noteq> NaN \<Longrightarrow>
   sorted_wrt (\<lambda>a b. num_le (score b) (score a)) (sort_scored rank xs)"
  by (simp only: sort_scored_stable sorted_stable_sort)

lemma set_sort_scored: "set (sort_scored rank xs) = set xs"
  by (simp add: sort_scored_def set_array_sort)

lemma length_sort_scored: "length (sort_scored rank xs) = length xs"
  by (simp add: sort_scored_def length_array_sort)

lemma semantic_path_success:
  assumes "fst (semantic_path P arrival rank q topK pool w) = Some (Inr results)"
  shows "verse ` set results \<subseteq> set pool"
    and "int (length results) =
           (if topK < 0 then max 0 (int (length pool) + topK) else min topK (int (length pool)))"
proof -
  obtain scored where sc: "fst (scored_pool P arrival q pool w) = Some (Inr scored)"
    and res: "results = slice0 (sort_scored rank scored) topK"
    using assms by (auto simp: semantic_path_fst split: option.splits sum.splits)
  have "set results \<subseteq> set scored"
    unfolding res using set_slice0 [of "sort_scored rank scored" topK] by (simp add: set_sort_scored)
  moreover have "verse ` set scored = set pool"
    using scored_pool_shape(1) [OF sc] by (metis set_map)
  ultimately show "verse ` set results \<subseteq> set pool" by blast
  have "length scored = length pool" using scored_pool_shape(1) [OF sc] by (metis length_map)
  then show "int (length results) =
           (if topK < 0 then max 0 (int (length pool) + topK) else min topK (int (length pool)))"
    unfolding res by (simp add: length_slice0 length_sort_scored)
qed

lemma first_rejection_arrival:
  "(first_rejection (completion_order a1 cs) = None) = (first_rejection (completion_order a2 cs) = None)"
  by (simp only: first_rejection_completion)

lemma scored_pool_arrival:
  "(fst (scored_pool P a1 q pool w) = Some (Inr scored)) = (fst (scored_pool P a2 q pool w) = Some (Inr scored))"
  "(fst (scored_pool P a1 q pool w) = None) = (fst (scored_pool P a2 q pool w) = None)"
  using first_rejection_arrival [of a1 "fst (start_all P (map text' pool) (snd (embed P q w)))" a2]
  by (auto simp: scored_pool_fst split: option.splits sum.splits)

lemma semantic_path_arrival:
  "(fst (semantic_path P a1 rank q topK pool w) = Some (Inr results)) =
   (fst (semantic_path P a2 rank q topK pool w) = Some (Inr results))"
  "(fst (semantic_path P a1 rank q topK pool w) = None) = (fst (semantic_path P a2 rank q topK pool w) = None)"
proof -
  have a: "fst (scored_pool P a1 q pool w) = Some (Inr scored) \<longleftrightarrow>
           fst (scored_pool P a2 q pool w) = Some (Inr scored)" for scored
    by (rule scored_pool_arrival(1))
  have b: "fst (scored_pool P a1 q pool w) = None \<longleftrightarrow> fst (scored_pool P a2 q pool w) = None"
    by (rule scored_pool_arrival(2))
  show "(fst (semantic_path P a1 rank q topK pool w) = Some (Inr results)) =
   (fst (semantic_path P a2 rank q topK pool w) = Some (Inr results))"
  proof (cases "fst (scored_pool P a1 q pool w)")
    case None
    then show ?thesis using b by (simp add: semantic_path_fst)
  next
    case (Some r)
    show ?thesis
    proof (cases r)
      case (Inl e)
      obtain r2 where r2: "fst (scored_pool P a2 q pool w) = Some r2"
        using Some b by (cases "fst (scored_pool P a2 q pool w)") auto
      have "\<exists>e'. r2 = Inl e'" using a r2 Some Inl by (cases r2) auto
      then show ?thesis using Some Inl r2 by (auto simp: semantic_path_fst)
    next
      case (Inr scored)
      then have "fst (scored_pool P a2 q pool w) = Some (Inr scored)" using Some a by simp
      then show ?thesis using Some Inr by (simp add: semantic_path_fst)
    qed
  qed
  show "(fst (semantic_path P a1 rank q topK pool w) = None) = (fst (semantic_path P a2 rank q topK pool w) = None)"
    using b by (auto simp: semantic_path_fst split: option.splits sum.splits)
qed

lemma semanticSearch_fst:
  "fst (semanticSearch P arrival rank query topK w) =
     (if trim query = [] then Some (Inr [])
      else case fst (semantic_path P arrival rank (trim query) topK (take 80 (verses w)) w) of
             None \<Rightarrow> None
           | Some (Inr results) \<Rightarrow> Some (Inr results)
           | Some (Inl e) \<Rightarrow> Some (Inr (keyword_fallback (trim query) topK w)))"
proof (cases "trim query = []")
  case True
  then show ?thesis by (simp add: semanticSearch_def)
next
  case False
  obtain r w' where sp: "semantic_path P arrival rank (trim query) topK (take 80 (verses w)) w = (r, w')"
    by (cases "semantic_path P arrival rank (trim query) topK (take 80 (verses w)) w")
  have "verses w' = verses w"
    using semantic_path_verses [of P arrival rank "trim query" topK "take 80 (verses w)" w] sp by simp
  then have "keyword_fallback (trim query) topK w' = keyword_fallback (trim query) topK w"
    by (simp add: keyword_fallback_def)
  then show ?thesis using False sp
    by (simp add: semanticSearch_def Let_def pool_take split: option.splits sum.splits)
qed

lemma semanticSearch_snd:
  "snd (semanticSearch P arrival rank query topK w) =
     (if trim query = [] then w
      else snd (semantic_path P arrival rank (trim query) topK (take 80 (verses w)) w))"
  by (simp add: semanticSearch_def Let_def pool_take split: prod.splits option.splits sum.splits)

lemma semanticSearch_arrival:
  "fst (semanticSearch P a1 rank query topK w) = fst (semanticSearch P a2 rank query topK w)"
proof (cases "fst (semantic_path P a1 rank (trim query) topK (take 80 (verses w)) w)")
  case None
  then have "fst (semantic_path P a2 rank (trim query) topK (take 80 (verses w)) w) = None"
    using semantic_path_arrival(2) [of P a1 rank "trim query" topK "take 80 (verses w)" w a2] by simp
  with None show ?thesis by (simp add: semanticSearch_fst)
next
  case (Some r)
  show ?thesis
  proof (cases r)
    case (Inl e)
    have "\<exists>e'. fst (semantic_path P a2 rank (trim query) topK (take 80 (verses w)) w) = Some (Inl e')"
    proof (cases "fst (semantic_path P a2 rank (trim query) topK (take 80 (verses w)) w)")
      case None
      then show ?thesis
        using semantic_path_arrival(2) [of P a1 rank "trim query" topK "take 80 (verses w)" w a2] Some
        by simp
    next
      case s2: (Some r2)
      show ?thesis
      proof (cases r2)
        case l2: (Inl e2)
        then show ?thesis using s2 by simp
      next
        case (Inr rs)
        then show ?thesis
          using semantic_path_arrival(1) [of P a1 rank "trim query" topK "take 80 (verses w)" w rs a2]
            s2 Some Inl
          by simp
      qed
    qed
    then show ?thesis using Some Inl by (auto simp: semanticSearch_fst)
  next
    case (Inr rs)
    then have "fst (semantic_path P a2 rank (trim query) topK (take 80 (verses w)) w) = Some (Inr rs)"
      using semantic_path_arrival(1) [of P a1 rank "trim query" topK "take 80 (verses w)" w rs a2] Some
      by simp
    then show ?thesis using Some Inr by (simp add: semanticSearch_fst)
  qed
qed

lemma pool_failure:
  assumes qe: "fst (embed P q w) = Some (Inr qe)"
    and n: "length (requests (snd (embed P q w))) \<le> n"
           "n < length (requests (snd (semantic_path P arrival rank q topK pool w)))"
    and f: "vector_of (P n (requests (snd (semantic_path P arrival rank q topK pool w)) ! n)) = Some (Inl err)"
  shows "\<exists>e. fst (semantic_path P arrival rank q topK pool w) = Some (Inl e)"
proof -
  define w1 where "w1 = snd (embed P q w)"
  define cs where "cs = fst (start_all P (map text' pool) w1)"
  have rq: "requests (snd (semantic_path P arrival rank q topK pool w)) =
            requests (snd (start_all P (map text' pool) w1))"
    using qe by (simp add: semantic_path_snd_requests w1_def)
  obtain new where new: "requests (snd (start_all P (map text' pool) w1)) = requests w1 @ new"
    using start_all_requests [of P "map text' pool" w1] by blast
  define m where "m = n - length (requests w1)"
  have m: "m < length new" "n = length (requests w1) + m"
    using n rq new by (simp_all add: m_def w1_def)
  obtain key where "InFlight key (P (length (requests w1) + m) (new ! m)) \<in> set cs"
    using start_all_inflight [OF new m(1)] cs_def by blast
  moreover have "requests (snd (semantic_path P arrival rank q topK pool w)) ! n = new ! m"
    using rq new m by (simp add: nth_append)
  ultimately have "first_rejection (completion_order arrival cs) \<noteq> None"
    using f m(2) inflight_failure_rejects by metis
  then show ?thesis using qe
    by (auto simp: semantic_path_fst scored_pool_fst cs_def w1_def split: option.splits)
qed

lemma provider_failure:
  assumes n: "length (requests w) \<le> n"
             "n < length (requests (snd (semantic_path P arrival rank q topK pool w)))"
    and f: "vector_of (P n (requests (snd (semantic_path P arrival rank q topK pool w)) ! n)) = Some (Inl err)"
  shows "\<exists>e. fst (semantic_path P arrival rank q topK pool w) = Some (Inl e)"
proof -
  from embed_cases [of w q P] show ?thesis
  proof (elim disjE exE conjE)
    fix cached
    assume e: "embed P q w = (Some (Inr cached), w)"
    then have "fst (embed P q w) = Some (Inr cached)" "length (requests (snd (embed P q w))) \<le> n"
      using n by simp_all
    from pool_failure [OF this n(2) f] show ?thesis .
  next
    assume e: "fst (embed P q w) = vector_of (P (length (requests w)) q)"
      and r: "requests (snd (embed P q w)) = requests w @ [q]"
    show ?thesis
    proof (cases "n = length (requests w)")
      case True
      have "requests (snd (semantic_path P arrival rank q topK pool w)) ! n = q"
      proof -
        obtain new where "requests (snd (start_all P (map text' pool) (snd (embed P q w)))) =
            requests (snd (embed P q w)) @ new"
          using start_all_requests [of P "map text' pool" "snd (embed P q w)"] by blast
        then show ?thesis using r True
          by (simp add: semantic_path_snd_requests nth_append split: option.splits sum.splits)
      qed
      then have "fst (embed P q w) = Some (Inl err)" using f e True by simp
      then show ?thesis by (simp add: semantic_path_fst scored_pool_fst)
    next
      case False
      then have le: "length (requests (snd (embed P q w))) \<le> n" using n r by simp
      have "\<exists>qe. fst (embed P q w) = Some (Inr qe)"
      proof (rule ccontr)
        assume "\<not> ?thesis"
        then have "requests (snd (semantic_path P arrival rank q topK pool w)) = requests (snd (embed P q w))"
          by (auto simp: semantic_path_snd_requests split: option.splits sum.splits)
        then show False using n(2) le by simp
      qed
      then obtain qe where "fst (embed P q w) = Some (Inr qe)" by blast
      from pool_failure [OF this le n(2) f] show ?thesis .
    qed
  qed
qed

lemma all_answered:
  assumes "fst (semantic_path P arrival rank q topK pool w) = None"
  shows "\<exists>n. length (requests w) \<le> n \<and>
             n < length (requests (snd (semantic_path P arrival rank q topK pool w))) \<and>
             P n (requests (snd (semantic_path P arrival rank q topK pool w)) ! n) = NoResponse"
proof (cases "fst (embed P q w)")
  case None
  from embed_pending [OF this]
  have "P (length (requests w)) q = NoResponse" "requests (snd (embed P q w)) = requests w @ [q]"
    by simp_all
  moreover have "requests (snd (semantic_path P arrival rank q topK pool w)) = requests (snd (embed P q w))"
    using None by (simp add: semantic_path_snd_requests)
  ultimately have "length (requests w) \<le> length (requests w) \<and>
      length (requests w) < length (requests (snd (semantic_path P arrival rank q topK pool w))) \<and>
      P (length (requests w)) (requests (snd (semantic_path P arrival rank q topK pool w)) ! length (requests w))
        = NoResponse"
    by simp
  then show ?thesis by blast
next
  case (Some r)
  then obtain qe where qe: "fst (embed P q w) = Some (Inr qe)"
    using assms by (cases r) (simp_all add: semantic_path_fst scored_pool_fst)
  define w1 where "w1 = snd (embed P q w)"
  define cs where "cs = fst (start_all P (map text' pool) w1)"
  have rq: "requests (snd (semantic_path P arrival rank q topK pool w)) =
            requests (snd (start_all P (map text' pool) w1))"
    using qe by (simp add: semantic_path_snd_requests w1_def)
  have "\<not> list_all settles cs"
    using assms qe by (auto simp: semantic_path_fst scored_pool_fst cs_def w1_def split: option.splits if_splits)
  then obtain c where c: "c \<in> set cs" "outcome c = None" by (auto simp: list_all_iff settles_def)
  from start_all_calls [of c P "map text' pool" w1] c(1)
  have "(\<exists>cached. c = Resolved cached) \<or>
   (\<exists>key n. c = InFlight key (P n (requests (snd (start_all P (map text' pool) w1)) ! n)) \<and>
             length (requests w1) \<le> n \<and> n < length (requests (snd (start_all P (map text' pool) w1))))"
    by (simp add: cs_def)
  then obtain key n where n: "c = InFlight key (P n (requests (snd (start_all P (map text' pool) w1)) ! n))"
    "length (requests w1) \<le> n" "n < length (requests (snd (start_all P (map text' pool) w1)))"
    using c(2) by auto
  have "vector_of (P n (requests (snd (start_all P (map text' pool) w1)) ! n)) = None"
    using c(2) n(1) by simp
  then have "P n (requests (snd (start_all P (map text' pool) w1)) ! n) = NoResponse"
    by (cases "P n (requests (snd (start_all P (map text' pool) w1)) ! n)" rule: vector_of.cases) simp_all
  moreover have "length (requests w) \<le> length (requests w1)"
    using embed_requests [of P q w] by (auto simp: w1_def)
  ultimately show ?thesis using n(2,3) rq by (intro exI [of _ n]) simp
qed

lemma set_keyword_fallback: "verse ` set (keyword_fallback q topK w) \<subseteq> set (verses w)"
proof -
  have "set (slice0 (filter (keyword_match q) (verses w)) topK) \<subseteq> set (verses w)"
    using set_slice0 [of "filter (keyword_match q) (verses w)" topK] by auto
  then show ?thesis by (auto simp: keyword_fallback_def)
qed

lemma keyword_fallback_eq:
  "keyword_fallback q topK w =
     map (\<lambda>v. \<lparr>verse = v, score = round64 (9 / 10)\<rparr>)
       (slice0 (filter (\<lambda>v. sublist q (text' v) \<or> sublist (toLowerCase q) (toLowerCase (text' v)))
                 (verses w)) topK)"
proof -
  have "keyword_match q = (\<lambda>v. sublist q (text' v) \<or> sublist (toLowerCase q) (toLowerCase (text' v)))"
    by (rule ext) (simp add: keyword_match_def includes'_def)
  then show ?thesis by (simp add: keyword_fallback_def)
qed

lemma keyword_fallback_spec:
  "0 \<le> topK \<Longrightarrow> keyword_fallback q topK w = keyword_search_spec (verses w) q topK"
  by (simp add: keyword_fallback_eq keyword_search_spec_def slice0_nonneg)

subsection \<open>Evaluation on the sample inputs\<close>

lemma build_example_corpus: "build_verses render_1e21 example_corpus = [verse_1_1, verse_1_2, verse_3_1]"
  unfolding verse_1_1_def verse_1_2_def verse_3_1_def by code_simp

lemma init_example:
  "init render_1e21 example_corpus =
     \<lparr>verses = [verse_1_1, verse_1_2, verse_3_1], embeddingCache = Map.empty, requests = [],
      inFlight = []\<rparr>"
  by (simp add: init_def build_example_corpus)

lemma build_twin_corpus:
  "map ayahId (build_verses render_1e21 twin_corpus) = [''1:1'', ''1:1'']"
  "map ayahNumber (build_verses render_1e21 twin_corpus) = [1, 1]"
  by code_simp+

lemma trim_examples:
  "trim ''moon'' = ''moon''" "trim ''sun'' = ''sun''" "trim '' the'' = ''the''" "trim ''the'' = ''the''"
  "trim ''   '' = []"
  by code_simp+

lemma semantic_path_down:
  "fst (semantic_path provider_down arrival rank q topK pool (init render_1e21 example_corpus))
     = Some (Inl (OllamaEmbedFailed 500 ''down''))"
  by (simp add: semantic_path_fst scored_pool_fst init_example embed_def embed_start_def Let_def
      provider_down_def)

lemma round64_square_huge: "round64 (pow2 600 * pow2 600) = PosInfinity"
proof -
  have "pow2 600 * pow2 600 = pow2 1200" using pow2_add [of 600 600] by simp
  moreover have "pow2 1024 \<le> pow2 1200" by (rule pow2_mono) simp
  ultimately show ?thesis using round64_overflow by simp
qed

lemma round64_huge: "round64 (pow2 600) = Finite (pow2 600)"
  by (rule round64_pow2) simp_all

lemma pow2_600_nonzero: "pow2 600 \<noteq> 0"
  using pow2_pos [of 600] by simp

lemma is_double_one: "is_double (Finite 1)"
  using round64_is_double [of 1] by (simp only: round64_1)

lemmas eval_number = round64_0 round64_1 round64_minus_1 round64_huge round64_square_huge
  pow2_600_nonzero fsub_def cosineSimilarity_def

lemmas eval_calls = init_example embed_def embed_start_def slice0_200 Let_def
  rejected_def settles_def fulfilments_def no_rejection verse_1_1_def verse_1_2_def verse_3_1_def

lemma scored_pool_up_sun:
  "fst (scored_pool provider_up arrival ''sun'' (take 80 (verses (init render_1e21 example_corpus)))
          (init render_1e21 example_corpus))
     = Some (Inr [\<lparr>verse = verse_1_1, score = Finite 1\<rparr>, \<lparr>verse = verse_1_2, score = Finite 0\<rparr>,
            \<lparr>verse = verse_3_1, score = Finite 0\<rparr>])"
  by (simp add: scored_pool_fst provider_up_def eval_calls eval_number)

lemma scored_pool_up_moon:
  "fst (scored_pool provider_up arrival ''moon'' (take 80 (verses (init render_1e21 example_corpus)))
          (init render_1e21 example_corpus))
     = Some (Inr [\<lparr>verse = verse_1_1, score = Finite 0\<rparr>, \<lparr>verse = verse_1_2, score = Finite 1\<rparr>,
            \<lparr>verse = verse_3_1, score = Finite 1\<rparr>])"
  by (simp add: scored_pool_fst provider_up_def eval_calls eval_number)

lemma scored_pool_huge:
  "fst (scored_pool provider_huge arrival ''sun'' (take 80 (verses (init render_1e21 example_corpus)))
          (init render_1e21 example_corpus))
     = Some (Inr [\<lparr>verse = verse_1_1, score = NaN\<rparr>, \<lparr>verse = verse_1_2, score = Finite 0\<rparr>,
            \<lparr>verse = verse_3_1, score = Finite 0\<rparr>])"
  by (simp add: scored_pool_fst provider_huge_def eval_calls eval_number)

lemma scored_pool_overflowing:
  "fst (scored_pool provider_overflowing arrival ''sun'' (take 80 (verses (init render_1e21 example_corpus)))
          (init render_1e21 example_corpus))
     = Some (Inr [\<lparr>verse = verse_1_1, score = Finite 0\<rparr>, \<lparr>verse = verse_1_2, score = NaN\<rparr>,
            \<lparr>verse = verse_3_1, score = Finite 1\<rparr>])"
  by (simp add: scored_pool_fst provider_overflowing_def eval_calls eval_number)

lemma sort_scored_examples:
  "sort_scored rank [\<lparr>verse = verse_1_1, score = Finite 1\<rparr>, \<lparr>verse = verse_1_2, score = Finite 0\<rparr>,
                \<lparr>verse = verse_3_1, score = Finite 0\<rparr>]
     = [\<lparr>verse = verse_1_1, score = Finite 1\<rparr>, \<lparr>verse = verse_1_2, score = Finite 0\<rparr>,
        \<lparr>verse = verse_3_1, score = Finite 0\<rparr>]"
  "sort_scored rank [\<lparr>verse = verse_1_1, score = Finite 0\<rparr>, \<lparr>verse = verse_1_2, score = Finite 1\<rparr>,
                \<lparr>verse = verse_3_1, score = Finite 1\<rparr>]
     = [\<lparr>verse = verse_1_2, score = Finite 1\<rparr>, \<lparr>verse = verse_3_1, score = Finite 1\<rparr>,
        \<lparr>verse = verse_1_1, score = Finite 0\<rparr>]"
  by (simp_all add: sort_scored_stable is_double_one is_double_zero stable_sort_def eval_number)

lemma sort_scored_NaN:
  "sort_scored rank [\<lparr>verse = verse_1_1, score = NaN\<rparr>, \<lparr>verse = verse_1_2, score = Finite 0\<rparr>,
                \<lparr>verse = verse_3_1, score = Finite 0\<rparr>]
     = [\<lparr>verse = verse_1_1, score = NaN\<rparr>, \<lparr>verse = verse_1_2, score = Finite 0\<rparr>,
        \<lparr>verse = verse_3_1, score = Finite 0\<rparr>]"
proof -
  have "consistent_comparator (\<lambda>a b. fsub (score b) (score a))
          [\<lparr>verse = verse_1_1, score = NaN\<rparr>, \<lparr>verse = verse_1_2, score = Finite 0\<rparr>,
           \<lparr>verse = verse_3_1, score = Finite 0\<rparr>]"
    by (rule all_level_consistent) (auto simp: level_def eval_number)
  then show ?thesis by (simp add: sort_scored_def array_sort_def stable_sort_def eval_number)
qed

lemma sort_scored_engine:
  "\<not> consistent_comparator (\<lambda>a b. fsub (score b) (score a))
        [\<lparr>verse = verse_1_1, score = Finite 0\<rparr>, \<lparr>verse = verse_1_2, score = NaN\<rparr>,
         \<lparr>verse = verse_3_1, score = Finite 1\<rparr>]"
  "sort_scored id [\<lparr>verse = verse_1_1, score = Finite 0\<rparr>, \<lparr>verse = verse_1_2, score = NaN\<rparr>,
                   \<lparr>verse = verse_3_1, score = Finite 1\<rparr>]
     = [\<lparr>verse = verse_1_1, score = Finite 0\<rparr>, \<lparr>verse = verse_1_2, score = NaN\<rparr>,
        \<lparr>verse = verse_3_1, score = Finite 1\<rparr>]"
  "sort_scored (\<lambda>i. 2 - i) [\<lparr>verse = verse_1_1, score = Finite 0\<rparr>, \<lparr>verse = verse_1_2, score = NaN\<rparr>,
                   \<lparr>verse = verse_3_1, score = Finite 1\<rparr>]
     = [\<lparr>verse = verse_3_1, score = Finite 1\<rparr>, \<lparr>verse = verse_1_2, score = NaN\<rparr>,
        \<lparr>verse = verse_1_1, score = Finite 0\<rparr>]"
proof -
  show n: "\<not> consistent_comparator (\<lambda>a b. fsub (score b) (score a))
        [\<lparr>verse = verse_1_1, score = Finite 0\<rparr>, \<lparr>verse = verse_1_2, score = NaN\<rparr>,
         \<lparr>verse = verse_3_1, score = Finite 1\<rparr>]"
    by (simp add: consistent_comparator_def consistent_at_def level_def comes_before_def
        comes_after_def eval_number)
  show "sort_scored id [\<lparr>verse = verse_1_1, score = Finite 0\<rparr>, \<lparr>verse = verse_1_2, score = NaN\<rparr>,
                   \<lparr>verse = verse_3_1, score = Finite 1\<rparr>]
     = [\<lparr>verse = verse_1_1, score = Finite 0\<rparr>, \<lparr>verse = verse_1_2, score = NaN\<rparr>,
        \<lparr>verse = verse_3_1, score = Finite 1\<rparr>]"
    using n by (simp add: sort_scored_def array_sort_def rearranged_def)
  show "sort_scored (\<lambda>i. 2 - i) [\<lparr>verse = verse_1_1, score = Finite 0\<rparr>, \<lparr>verse = verse_1_2, score = NaN\<rparr>,
                   \<lparr>verse = verse_3_1, score = Finite 1\<rparr>]
     = [\<lparr>verse = verse_3_1, score = Finite 1\<rparr>, \<lparr>verse = verse_1_2, score = NaN\<rparr>,
        \<lparr>verse = verse_1_1, score = Finite 0\<rparr>]"
    using n by (simp add: sort_scored_def array_sort_def rearranged_def)
qed

text \<open>
  Four records with the scores \<open>0, 1, NaN, 1\<close>: the comparator is not consistent, and
  the order of the result is the engine's.
\<close>

lemma array_sort_engine:
  "\<not> consistent_comparator (\<lambda>a b. fsub (snd b) (snd a))
        [(0::nat, Finite 0), (1, Finite 1), (2, NaN), (3, Finite 1)]"
  "array_sort (\<lambda>i. [2, 0, 3, 1] ! i) (\<lambda>a b. fsub (snd b) (snd a))
        [(0::nat, Finite 0), (1, Finite 1), (2, NaN), (3, Finite 1)]
     = [(1, Finite 1), (3, Finite 1), (0, Finite 0), (2, NaN)]"
  "array_sort id (\<lambda>a b. fsub (snd b) (snd a))
        [(0::nat, Finite 0), (1, Finite 1), (2, NaN), (3, Finite 1)]
     = [(0, Finite 0), (1, Finite 1), (2, NaN), (3, Finite 1)]"
proof -
  show n: "\<not> consistent_comparator (\<lambda>a b. fsub (snd b) (snd a))
        [(0::nat, Finite 0), (1, Finite 1), (2, NaN), (3, Finite 1)]"
    by (simp add: consistent_comparator_def consistent_at_def level_def comes_before_def
        comes_after_def fsub_def eval_number)
  show "array_sort (\<lambda>i. [2, 0, 3, 1] ! i) (\<lambda>a b. fsub (snd b) (snd a))
        [(0::nat, Finite 0), (1, Finite 1), (2, NaN), (3, Finite 1)]
     = [(1, Finite 1), (3, Finite 1), (0, Finite 0), (2, NaN)]"
    using n by (simp add: array_sort_def rearranged_def)
  show "array_sort id (\<lambda>a b. fsub (snd b) (snd a))
        [(0::nat, Finite 0), (1, Finite 1), (2, NaN), (3, Finite 1)]
     = [(0, Finite 0), (1, Finite 1), (2, NaN), (3, Finite 1)]"
    using n by (simp add: array_sort_def rearranged_def)
qed

lemma semantic_path_up:
  "fst (semantic_path provider_up arrival rank ''sun'' topK (take 80 (verses (init render_1e21 example_corpus)))
          (init render_1e21 example_corpus))
     = Some (Inr (slice0 [\<lparr>verse = verse_1_1, score = Finite 1\<rparr>, \<lparr>verse = verse_1_2, score = Finite 0\<rparr>,
                    \<lparr>verse = verse_3_1, score = Finite 0\<rparr>] topK))"
  by (simp add: semantic_path_fst scored_pool_up_sun sort_scored_examples)

lemma keyword_matches_moon:
  "filter (keyword_match ''moon'') [verse_1_1, verse_1_2, verse_3_1] = [verse_1_2]"
  unfolding verse_1_1_def verse_1_2_def verse_3_1_def by code_simp

lemma keyword_matches_the:
  "filter (keyword_match ''the'') [verse_1_1, verse_1_2, verse_3_1] = [verse_1_1, verse_1_2]"
  unfolding verse_1_1_def verse_1_2_def verse_3_1_def by code_simp

lemma keyword_spec_the:
  "keyword_search_spec [verse_1_1, verse_1_2, verse_3_1] '' the'' 5 = []"
proof -
  have "filter (\<lambda>v. sublist '' the'' (text' v) \<or> sublist (toLowerCase '' the'') (toLowerCase (text' v)))
          [verse_1_1, verse_1_2, verse_3_1] = []"
    unfolding verse_1_1_def verse_1_2_def verse_3_1_def by code_simp
  then show ?thesis unfolding keyword_search_spec_def by simp
qed

lemma keyword_fallback_moon:
  "keyword_fallback ''moon'' 5 (init render_1e21 example_corpus) = [\<lparr>verse = verse_1_2, score = round64 (9 / 10)\<rparr>]"
proof -
  have "filter (keyword_match ''moon'') (verses (init render_1e21 example_corpus)) = [verse_1_2]"
    by (simp only: init_example world.select_convs keyword_matches_moon)
  then show ?thesis by (simp add: keyword_fallback_def slice0_def)
qed

lemma keyword_fallback_the:
  "keyword_fallback ''the'' 5 (init render_1e21 example_corpus)
     = [\<lparr>verse = verse_1_1, score = round64 (9 / 10)\<rparr>, \<lparr>verse = verse_1_2, score = round64 (9 / 10)\<rparr>]"
proof -
  have "filter (keyword_match ''the'') (verses (init render_1e21 example_corpus)) = [verse_1_1, verse_1_2]"
    by (simp only: init_example world.select_convs keyword_matches_the)
  then show ?thesis by (simp add: keyword_fallback_def slice0_def)
qed

lemma keyword_fallback_the_negative:
  "keyword_fallback ''the'' (- 1) (init render_1e21 example_corpus)
     = [\<lparr>verse = verse_1_1, score = round64 (9 / 10)\<rparr>]"
proof -
  have "filter (keyword_match ''the'') (verses (init render_1e21 example_corpus)) = [verse_1_1, verse_1_2]"
    by (simp only: init_example world.select_convs keyword_matches_the)
  then show ?thesis by (simp add: keyword_fallback_def slice0_def)
qed

lemma take_200_long: "take 200 (replicate 200 c @ s) = replicate 200 c"
  by simp

lemma long_verses:
  "build_verses render_1e21 long_corpus =
     map (\<lambda>i. \<lparr>ayahId = ''1:'' @ show_int (int i + 1), surahNumber = 1, surahName = ''A'',
                ayahNumber = int i + 1, text' = ''night''\<rparr>) [0..<80]
     @ [\<lparr>ayahId = ''1:81'', surahNumber = 1, surahName = ''A'', ayahNumber = 81,
         text' = ''the sun rises''\<rparr>]"
  by code_simp

lemma night_0: "night 0 = \<lparr>ayahId = ''1:1'', surahNumber = 1, surahName = ''A'', ayahNumber = 1,
                           text' = ''night''\<rparr>"
  unfolding night_def by code_simp

lemma init_long:
  "init render_1e21 long_corpus =
     \<lparr>verses = map night [0..<80] @
        [\<lparr>ayahId = ''1:81'', surahNumber = 1, surahName = ''A'', ayahNumber = 81,
          text' = ''the sun rises''\<rparr>],
      embeddingCache = Map.empty, requests = [], inFlight = []\<rparr>"
proof -
  have "night = (\<lambda>i. \<lparr>ayahId = ''1:'' @ show_int (int i + 1), surahNumber = 1, surahName = ''A'',
                ayahNumber = int i + 1, text' = ''night''\<rparr>)"
    by (rule ext) (simp add: night_def)
  then show ?thesis by (simp add: init_def long_verses)
qed

lemma pool_long: "take 80 (verses (init render_1e21 long_corpus)) = map night [0..<80]"
  by (simp add: init_long)

lemma texts_long: "map text' (map night [0..<80]) = replicate 80 ''night''"
  by (simp add: night_def comp_def map_replicate_const)

lemma scored_pool_long:
  "fst (scored_pool provider_up arrival ''sun'' (map night [0..<80]) (init render_1e21 long_corpus))
     = Some (Inr (map (\<lambda>v. \<lparr>verse = v, score = Finite 0\<rparr>) (map night [0..<80])))"
proof -
  define w1 where "w1 = snd (embed provider_up ''sun'' (init render_1e21 long_corpus))"
  have e: "fst (embed provider_up ''sun'' (init render_1e21 long_corpus)) = Some (Inr [Finite 1, Finite 0])"
    by (simp add: embed_def embed_start_def slice0_200 init_long provider_up_def)
  have c: "embeddingCache w1 = [''sun'' \<mapsto> [Finite 1, Finite 0]]" and r: "requests w1 = [''sun'']"
    by (simp_all add: w1_def embed_def embed_start_def slice0_200 init_long provider_up_def)
  have "\<forall>t\<in>set (replicate 80 ''night''). embeddingCache w1 (take 200 t) = None"
    by (simp add: c)
  from start_all_misses [OF this, of provider_up]
  have cs: "fst (start_all provider_up (replicate 80 ''night'') w1) =
      map (\<lambda>(i, t). InFlight (take 200 t) (provider_up (length (requests w1) + i) t))
        (enumerate 0 (replicate 80 ''night''))"
    by simp
  have "\<forall>c\<in>set (fst (start_all provider_up (replicate 80 ''night'') w1)).
          outcome c = Some (Inr [Finite 0, Finite 1])"
    unfolding cs by (auto simp: provider_up_def in_set_enumerate_eq)
  from all_fulfilled [OF this]
  have f: "first_rejection (completion_order arrival (fst (start_all provider_up (replicate 80 ''night'') w1))) = None"
    "list_all settles (fst (start_all provider_up (replicate 80 ''night'') w1))"
    "fulfilments (fst (start_all provider_up (replicate 80 ''night'') w1))
       = replicate 80 [Finite 0, Finite 1]"
    by (simp_all add: start_all_length no_rejection)
  have z: "cosineSimilarity [Finite 1, Finite 0] [Finite 0, Finite 1] = Finite 0"
    by (simp add: cosineSimilarity_def round64_0 round64_1)
  have m: "map2 (\<lambda>v vec. \<lparr>verse = v, score = cosineSimilarity [Finite 1, Finite 0] vec\<rparr>)
          (map night [0..<80]) (replicate 80 [Finite 0, Finite 1])
        = map (\<lambda>v. \<lparr>verse = v, score = Finite 0\<rparr>) (map night [0..<80])"
    by (rule nth_equalityI) (simp_all add: z)
  show ?thesis
    by (simp only: scored_pool_fst e option.case sum.case texts_long w1_def [symmetric] f m if_True)
qed

lemma semantic_path_long:
  "fst (semantic_path provider_up arrival rank ''sun'' 1 (take 80 (verses (init render_1e21 long_corpus)))
          (init render_1e21 long_corpus))
     = Some (Inr [\<lparr>verse = night 0, score = Finite 0\<rparr>])"
proof -
  have "\<forall>r\<in>set (map (\<lambda>v. \<lparr>verse = v, score = Finite 0\<rparr>) (map night [0..<80])).
          is_double (score r) \<and> score r \<noteq> NaN"
    by (auto simp: is_double_zero)
  then have "sort_scored rank (map (\<lambda>v. \<lparr>verse = v, score = Finite 0\<rparr>) (map night [0..<80]))
        = stable_sort (\<lambda>a b. fsub (score b) (score a))
            (map (\<lambda>v. \<lparr>verse = v, score = Finite 0\<rparr>) (map night [0..<80]))"
    by (rule sort_scored_stable)
  also have "\<dots> = map (\<lambda>v. \<lparr>verse = v, score = Finite 0\<rparr>) (map night [0..<80])"
    by (rule stable_sort_unchanged) (auto simp: fsub_def round64_0)
  finally have "fst (semantic_path provider_up arrival rank ''sun'' 1 (take 80 (verses (init render_1e21 long_corpus)))
          (init render_1e21 long_corpus))
     = Some (Inr (slice0 (map (\<lambda>v. \<lparr>verse = v, score = Finite 0\<rparr>) (map night [0..<80])) 1))"
    by (simp only: semantic_path_fst pool_long scored_pool_long option.case sum.case)
  moreover have "take 1 [0..<80] = [0::nat]" by (simp add: take_upt)
  ultimately show ?thesis by (simp add: slice0_def take_map)
qed

lemma requests_long:
  "requests (snd (semantic_path provider_up arrival rank ''sun'' 1 (take 80 (verses (init render_1e21 long_corpus)))
          (init render_1e21 long_corpus)))
     = ''sun'' # replicate 80 ''night''"
proof -
  define w1 where "w1 = snd (embed provider_up ''sun'' (init render_1e21 long_corpus))"
  have e: "fst (embed provider_up ''sun'' (init render_1e21 long_corpus)) = Some (Inr [Finite 1, Finite 0])"
    by (simp add: embed_def embed_start_def slice0_200 init_long provider_up_def)
  have c: "embeddingCache w1 = [''sun'' \<mapsto> [Finite 1, Finite 0]]" and r: "requests w1 = [''sun'']"
    by (simp_all add: w1_def embed_def embed_start_def slice0_200 init_long provider_up_def)
  have "\<forall>t\<in>set (replicate 80 ''night''). embeddingCache w1 (take 200 t) = None"
    by (simp add: c)
  from start_all_misses [OF this, of provider_up]
  have "requests (snd (start_all provider_up (replicate 80 ''night'') w1)) = ''sun'' # replicate 80 ''night''"
    by (simp add: r)
  then show ?thesis
    by (simp only: semantic_path_snd_requests e option.case sum.case pool_long texts_long w1_def [symmetric])
qed

lemma search_silent:
  "semanticSearch provider_silent arrival rank ''moon'' topK (init render_1e21 example_corpus)
     = (None, \<lparr>verses = [verse_1_1, verse_1_2, verse_3_1], embeddingCache = Map.empty,
               requests = [''moon''], inFlight = [(''moon'', NoResponse)]\<rparr>)"
  by (simp add: semanticSearch_def semantic_path_def scored_pool_def trim_examples init_example
      embed_def embed_start_def slice0_200 Let_def provider_silent_def)

lemma search_stalling:
  "fst (semanticSearch provider_stalling arrival rank ''sun'' topK (init render_1e21 example_corpus)) = None"
  "requests (snd (semanticSearch provider_stalling arrival rank ''sun'' topK (init render_1e21 example_corpus)))
     = [''sun'', ''the sun rises'', ''the moon sets'', ''Stars'']"
  by (simp_all add: semanticSearch_fst semanticSearch_snd semantic_path_fst semantic_path_snd_requests
      scored_pool_fst trim_examples provider_stalling_def eval_calls)

lemma keyword_matches_sun:
  "filter (keyword_match ''sun'') [verse_1_1, verse_1_2, verse_3_1] = [verse_1_1]"
  unfolding verse_1_1_def verse_1_2_def verse_3_1_def by code_simp

lemma search_stumbling:
  "fst (semanticSearch provider_stumbling arrival rank ''sun'' 5 (init render_1e21 example_corpus))
     = Some (Inr [\<lparr>verse = verse_1_1, score = round64 (9 / 10)\<rparr>])"
proof -
  have "filter (keyword_match ''sun'') (verses (init render_1e21 example_corpus)) = [verse_1_1]"
    by (simp only: init_example world.select_convs keyword_matches_sun)
  then have k: "keyword_fallback ''sun'' 5 (init render_1e21 example_corpus) = [\<lparr>verse = verse_1_1, score = round64 (9 / 10)\<rparr>]"
    by (simp add: keyword_fallback_def slice0_def)
  have "InFlight ''the sun rises'' (NotOk 500 ''busy'')
          \<in> set (fst (start_all provider_stumbling (map text' (take 80 (verses (init render_1e21 example_corpus))))
                  (snd (embed provider_stumbling ''sun'' (init render_1e21 example_corpus)))))"
    by (simp add: provider_stumbling_def eval_calls)
  then have "first_rejection (completion_order arrival
                 (fst (start_all provider_stumbling (map text' (take 80 (verses (init render_1e21 example_corpus))))
                  (snd (embed provider_stumbling ''sun'' (init render_1e21 example_corpus)))))) \<noteq> None"
    by (rule inflight_failure_rejects) simp
  moreover have "fst (embed provider_stumbling ''sun'' (init render_1e21 example_corpus)) = Some (Inr [Finite 1])"
    by (simp add: provider_stumbling_def eval_calls)
  ultimately have "\<exists>e. fst (semantic_path provider_stumbling arrival rank ''sun'' 5
                      (take 80 (verses (init render_1e21 example_corpus))) (init render_1e21 example_corpus)) = Some (Inl e)"
    by (auto simp: semantic_path_fst scored_pool_fst split: option.splits)
  then show ?thesis by (auto simp: semanticSearch_fst trim_examples k)
qed

lemma stumbling_early:
  "inFlight (snd (semanticSearch provider_stumbling id rank ''sun'' 5 (init render_1e21 example_corpus)))
     = [(''the moon sets'', Body (Some [[Finite 1]])), (''Stars'', Body (Some [[Finite 1]]))]"
  "embeddingCache (snd (semanticSearch provider_stumbling id rank ''sun'' 5 (init render_1e21 example_corpus))) ''Stars''
     = None"
  "embeddingCache (settle 1 (snd (semanticSearch provider_stumbling id rank ''sun'' 5 (init render_1e21 example_corpus))))
       ''Stars''
     = Some [Finite 1]"
  "inFlight (settle 1 (snd (semanticSearch provider_stumbling id rank ''sun'' 5 (init render_1e21 example_corpus))))
     = [(''the moon sets'', Body (Some [[Finite 1]]))]"
  by (simp_all add: semanticSearch_def semantic_path_def scored_pool_def promise_all_def
      completion_order_def left_in_flight_def settle_def trim_examples pool_take provider_stumbling_def
      init_example embed_def embed_start_def slice0_200 Let_def settles_def
      verse_1_1_def verse_1_2_def verse_3_1_def)

lemma stumbling_late:
  "inFlight (snd (semanticSearch provider_stumbling (\<lambda>i. 2 - i) rank ''sun'' 5 (init render_1e21 example_corpus))) = []"
  "embeddingCache (snd (semanticSearch provider_stumbling (\<lambda>i. 2 - i) rank ''sun'' 5 (init render_1e21 example_corpus)))
       ''Stars''
     = Some [Finite 1]"
  by (simp_all add: semanticSearch_def semantic_path_def scored_pool_def promise_all_def
      completion_order_def left_in_flight_def trim_examples pool_take provider_stumbling_def
      init_example embed_def embed_start_def slice0_200 Let_def settles_def
      verse_1_1_def verse_1_2_def verse_3_1_def)

lemma safe_examples:
  "list_all (\<lambda>g. isSafeInteger (number g)) example_corpus"
  "isSafeInteger (number (example_corpus ! 2))"
  "list_all (\<lambda>g. isSafeInteger (number g)) twin_corpus"
  "distinct (map number (filter has_content example_corpus))"
  by (simp_all add: example_corpus_def twin_corpus_def isSafeInteger_def has_content_def
      content_or_empty_def)

section \<open>The claims\<close>

text \<open>
  C1 (amended).  \<open>semanticSearch\<close> never surfaces an error to its caller: whatever the
  semantic path throws is caught, and the call returns the result of the keyword
  fallback instead.  It returns a sequence of scored records whenever every request it
  sends is answered.  The source sets no timeout, so a request that is never answered can
  leave the call pending for ever; nothing is returned then, and nothing is thrown.
\<close>

theorem semanticSearch_never_fails:
  "fst (semanticSearch P arrival rank query topK w) \<noteq> Some (Inl e) \<and>
   (trim query \<noteq> [] \<longrightarrow>
    fst (semantic_path P arrival rank (trim query) topK (take 80 (verses w)) w) = Some (Inl e) \<longrightarrow>
    fst (semanticSearch P arrival rank query topK w)
      = Some (Inr (keyword_fallback (trim query) topK w))) \<and>
   ((\<forall>n. length (requests w) \<le> n \<longrightarrow>
         n < length (requests (snd (semanticSearch P arrival rank query topK w))) \<longrightarrow>
         P n (requests (snd (semanticSearch P arrival rank query topK w)) ! n) \<noteq> NoResponse) \<longrightarrow>
    (\<exists>results. fst (semanticSearch P arrival rank query topK w) = Some (Inr results)))"
proof -
  have a: "fst (semanticSearch P arrival rank query topK w) \<noteq> Some (Inl e)"
    by (simp add: semanticSearch_fst split: option.splits sum.splits)
  have b: "\<exists>results. fst (semanticSearch P arrival rank query topK w) = Some (Inr results)"
    if h: "\<forall>n. length (requests w) \<le> n \<longrightarrow>
         n < length (requests (snd (semanticSearch P arrival rank query topK w))) \<longrightarrow>
         P n (requests (snd (semanticSearch P arrival rank query topK w)) ! n) \<noteq> NoResponse"
  proof (cases "trim query = []")
    case True
    then show ?thesis by (simp add: semanticSearch_fst)
  next
    case False
    have "fst (semantic_path P arrival rank (trim query) topK (take 80 (verses w)) w) \<noteq> None"
    proof
      assume "fst (semantic_path P arrival rank (trim query) topK (take 80 (verses w)) w) = None"
      from all_answered [OF this] show False using h False by (auto simp: semanticSearch_snd)
    qed
    then show ?thesis using False by (auto simp: semanticSearch_fst split: option.splits sum.splits)
  qed
  show ?thesis using a b by (simp add: semanticSearch_fst)
qed

theorem semanticSearch_never_fails_witness:
  "trim ''moon'' \<noteq> [] \<and>
   fst (semantic_path provider_down id id (trim ''moon'') 5 (take 80 (verses (init render_1e21 example_corpus)))
          (init render_1e21 example_corpus)) = Some (Inl (OllamaEmbedFailed 500 ''down'')) \<and>
   requests (snd (semanticSearch provider_down id id ''moon'' 5 (init render_1e21 example_corpus))) = [''moon''] \<and>
   provider_down 0 ''moon'' \<noteq> NoResponse \<and>
   fst (semanticSearch provider_down id id ''moon'' 5 (init render_1e21 example_corpus))
     = Some (Inr [\<lparr>verse = verse_1_2, score = round64 (9 / 10)\<rparr>])"
proof -
  have r: "requests (snd (semanticSearch provider_down id id ''moon'' 5 (init render_1e21 example_corpus))) = [''moon'']"
    by (simp add: semanticSearch_snd semantic_path_snd_requests trim_examples provider_down_def eval_calls)
  have p: "provider_down 0 ''moon'' \<noteq> NoResponse" by (simp add: provider_down_def)
  have "\<forall>n. length (requests (init render_1e21 example_corpus)) \<le> n \<longrightarrow>
         n < length (requests (snd (semanticSearch provider_down id id ''moon'' 5 (init render_1e21 example_corpus)))) \<longrightarrow>
         provider_down n (requests (snd (semanticSearch provider_down id id ''moon'' 5 (init render_1e21 example_corpus))) ! n)
           \<noteq> NoResponse"
    by (simp add: r provider_down_def)
  with semanticSearch_never_fails [of provider_down id id "''moon''" 5 "init render_1e21 example_corpus"
        "OllamaEmbedFailed 500 ''down''"]
  have "fst (semanticSearch provider_down id id ''moon'' 5 (init render_1e21 example_corpus))
          = Some (Inr (keyword_fallback (trim ''moon'') 5 (init render_1e21 example_corpus)))"
    by (simp add: trim_examples semantic_path_down)
  then show ?thesis using r p by (simp add: trim_examples semantic_path_down keyword_fallback_moon)
qed

theorem semanticSearch_pending_counterexample:
  "provider_silent 0 ''moon'' = NoResponse \<and>
   fst (semanticSearch provider_silent id id ''moon'' 5 (init render_1e21 example_corpus)) = None \<and>
   requests (snd (semanticSearch provider_silent id id ''moon'' 5 (init render_1e21 example_corpus))) = [''moon''] \<and>
   provider_stalling 0 ''sun'' = Body (Some [[Finite 1]]) \<and>
   fst (semanticSearch provider_stalling id id ''sun'' 5 (init render_1e21 example_corpus)) = None \<and>
   requests (snd (semanticSearch provider_stalling id id ''sun'' 5 (init render_1e21 example_corpus)))
     = [''sun'', ''the sun rises'', ''the moon sets'', ''Stars'']"
  by (simp add: search_silent search_stalling provider_silent_def provider_stalling_def)

text \<open>
  C2 (amended).  Whenever a step of the semantic path fails, in particular whenever the
  provider answers any request sent during the call with a failure, the result is the
  keyword search over the whole of \<open>verses\<close> for the trimmed query: the records whose
  text contains the trimmed query, or whose lower-cased text contains the lower-cased
  trimmed query, in corpus order, cut by \<open>slice(0, topK)\<close> (the first \<open>topK\<close> of
  them when \<open>topK\<close> is not negative), each with score \<open>0.9\<close>.
\<close>

theorem fallback_is_keyword_search:
  assumes "trim query \<noteq> []"
  shows "(fst (semantic_path P arrival rank (trim query) topK (take 80 (verses w)) w) = Some (Inl e) \<longrightarrow>
          fst (semanticSearch P arrival rank query topK w)
            = Some (Inr (keyword_fallback (trim query) topK w))) \<and>
         (length (requests w) \<le> n \<longrightarrow>
          n < length (requests (snd (semanticSearch P arrival rank query topK w))) \<longrightarrow>
          P n (requests (snd (semanticSearch P arrival rank query topK w)) ! n) = NotOk status body \<longrightarrow>
          fst (semanticSearch P arrival rank query topK w)
            = Some (Inr (keyword_fallback (trim query) topK w))) \<and>
         keyword_fallback (trim query) topK w =
           map (\<lambda>v. \<lparr>verse = v, score = round64 (9 / 10)\<rparr>)
             (slice0 (filter (\<lambda>v. sublist (trim query) (text' v) \<or>
                                  sublist (toLowerCase (trim query)) (toLowerCase (text' v)))
                       (verses w)) topK) \<and>
         (0 \<le> topK \<longrightarrow>
          keyword_fallback (trim query) topK w = keyword_search_spec (verses w) (trim query) topK)"
proof -
  have a: "fst (semantic_path P arrival rank (trim query) topK (take 80 (verses w)) w) = Some (Inl e') \<Longrightarrow>
      fst (semanticSearch P arrival rank query topK w)
        = Some (Inr (keyword_fallback (trim query) topK w))" for e'
    using assms by (simp add: semanticSearch_fst)
  have b: "fst (semanticSearch P arrival rank query topK w)
             = Some (Inr (keyword_fallback (trim query) topK w))"
    if h1: "length (requests w) \<le> n"
      and h2: "n < length (requests (snd (semanticSearch P arrival rank query topK w)))"
      and h3: "P n (requests (snd (semanticSearch P arrival rank query topK w)) ! n) = NotOk status body"
  proof -
    have s: "snd (semanticSearch P arrival rank query topK w) =
             snd (semantic_path P arrival rank (trim query) topK (take 80 (verses w)) w)"
      using assms by (simp add: semanticSearch_snd)
    have "vector_of (P n (requests (snd (semantic_path P arrival rank (trim query) topK
             (take 80 (verses w)) w)) ! n))
          = Some (Inl (OllamaEmbedFailed status body))"
      using h3 s by simp
    moreover have "n < length (requests (snd (semantic_path P arrival rank (trim query) topK
             (take 80 (verses w)) w)))"
      using h2 s by simp
    ultimately obtain e' where
      "fst (semantic_path P arrival rank (trim query) topK (take 80 (verses w)) w) = Some (Inl e')"
      using provider_failure [OF h1] by blast
    then show ?thesis by (rule a)
  qed
  show ?thesis
    using a b keyword_fallback_eq [of "trim query" topK w] keyword_fallback_spec [of topK "trim query" w]
    by blast
qed

theorem fallback_is_keyword_search_witness:
  "trim '' the'' \<noteq> [] \<and>
   fst (semantic_path provider_down id id (trim '' the'') 5 (take 80 (verses (init render_1e21 example_corpus)))
          (init render_1e21 example_corpus)) = Some (Inl (OllamaEmbedFailed 500 ''down'')) \<and>
   fst (semanticSearch provider_down id id '' the'' 5 (init render_1e21 example_corpus))
     = Some (Inr [\<lparr>verse = verse_1_1, score = round64 (9 / 10)\<rparr>,
                  \<lparr>verse = verse_1_2, score = round64 (9 / 10)\<rparr>]) \<and>
   keyword_search_spec (verses (init render_1e21 example_corpus)) (trim '' the'') 5
     = [\<lparr>verse = verse_1_1, score = round64 (9 / 10)\<rparr>, \<lparr>verse = verse_1_2, score = round64 (9 / 10)\<rparr>] \<and>
   round64 (9 / 10) = Finite (8106479329266893 / 2 ^ 53)"
proof -
  have t: "trim '' the'' \<noteq> []" by (simp add: trim_examples)
  note th = fallback_is_keyword_search [OF t, of provider_down id id 5 "init render_1e21 example_corpus"
        "OllamaEmbedFailed 500 ''down''" 0 500 "''down''"]
  have p: "fst (semantic_path provider_down id id (trim '' the'') 5
             (take 80 (verses (init render_1e21 example_corpus))) (init render_1e21 example_corpus))
           = Some (Inl (OllamaEmbedFailed 500 ''down''))"
    by (simp add: semantic_path_down)
  from th p have r: "fst (semanticSearch provider_down id id '' the'' 5 (init render_1e21 example_corpus))
           = Some (Inr (keyword_fallback (trim '' the'') 5 (init render_1e21 example_corpus)))"
    by blast
  from th [THEN conjunct2, THEN conjunct2, THEN conjunct2]
  have k: "keyword_search_spec (verses (init render_1e21 example_corpus)) (trim '' the'') 5
           = keyword_fallback (trim '' the'') 5 (init render_1e21 example_corpus)"
    by simp
  show ?thesis
    unfolding k r using t p round64_0_9 by (simp add: trim_examples keyword_fallback_the)
qed

theorem fallback_original_query_counterexample:
  "fst (semantic_path provider_down id id (trim '' the'') 5 (take 80 (verses (init render_1e21 example_corpus)))
          (init render_1e21 example_corpus)) = Some (Inl (OllamaEmbedFailed 500 ''down'')) \<and>
   fst (semanticSearch provider_down id id '' the'' 5 (init render_1e21 example_corpus))
     = Some (Inr [\<lparr>verse = verse_1_1, score = round64 (9 / 10)\<rparr>,
                  \<lparr>verse = verse_1_2, score = round64 (9 / 10)\<rparr>]) \<and>
   keyword_search_spec (verses (init render_1e21 example_corpus)) '' the'' 5 = [] \<and>
   fst (semanticSearch provider_down id id ''the'' (- 1) (init render_1e21 example_corpus))
     = Some (Inr [\<lparr>verse = verse_1_1, score = round64 (9 / 10)\<rparr>]) \<and>
   keyword_search_spec (verses (init render_1e21 example_corpus)) ''the'' (- 1) = []"
proof -
  have "keyword_search_spec (verses (init render_1e21 example_corpus)) '' the'' 5 = []"
    by (simp only: init_example world.select_convs keyword_spec_the)
  moreover have "keyword_search_spec (verses (init render_1e21 example_corpus)) ''the'' (- 1) = []"
    by (simp add: keyword_search_spec_def)
  ultimately show ?thesis
    by (simp add: semanticSearch_fst trim_examples semantic_path_down keyword_fallback_the
        keyword_fallback_the_negative)
qed

text \<open>
  C3.  A query that is empty or consists of white space only makes \<open>semanticSearch\<close>
  return the empty sequence at once: no request is sent to the provider and the cache
  is untouched (the world is unchanged).
\<close>

theorem semanticSearch_blank_query:
  "\<forall>c\<in>set query. isWhiteSpace c \<Longrightarrow>
   semanticSearch P arrival rank query topK w = (Some (Inr []), w)"
  by (simp add: semanticSearch_def all_whitespace_trim)

theorem semanticSearch_blank_query_witness:
  "list_all isWhiteSpace ''   '' \<and>
   semanticSearch provider_up id id ''   '' 10 (init render_1e21 example_corpus) = (Some (Inr []), init render_1e21 example_corpus) \<and>
   semanticSearch provider_up id id [] 10 (init render_1e21 example_corpus) = (Some (Inr []), init render_1e21 example_corpus)"
  using semanticSearch_blank_query [of "''   ''" provider_up id id 10 "init render_1e21 example_corpus"]
    semanticSearch_blank_query [of "[]" provider_up id id 10 "init render_1e21 example_corpus"]
  by (simp add: isWhiteSpace_def)

text \<open>
  C4 (amended).  \<open>embed\<close> is memoized by the first 200 characters of its input: a
  call whose cache key is present returns the cached vector and sends nothing; a call
  that returns a vector has stored it under its key, and a call that fails stores
  nothing.  So of two successive calls whose texts share their first 200 characters, when
  the first returns a vector the second returns the same vector without a request, and
  at most one request is sent in total.
\<close>

theorem embed_memoized:
  "(embeddingCache w (take 200 t1) = Some cached \<longrightarrow> embed P t1 w = (Some (Inr cached), w)) \<and>
   (embed P t1 w = (Some (Inr vec), w') \<longrightarrow> embeddingCache w' (take 200 t1) = Some vec) \<and>
   (fst (embed P t1 w) = Some (Inl e) \<longrightarrow> embeddingCache (snd (embed P t1 w)) = embeddingCache w) \<and>
   (fst (embed P t1 w) = Some (Inr vec) \<longrightarrow> take 200 t1 = take 200 t2 \<longrightarrow>
      embed P t2 (snd (embed P t1 w)) = (Some (Inr vec), snd (embed P t1 w)) \<and>
      length (requests (snd (embed P t2 (snd (embed P t1 w))))) \<le> length (requests w) + 1)"
proof -
  have "embed P t2 (snd (embed P t1 w)) = (Some (Inr vec), snd (embed P t1 w)) \<and>
        length (requests (snd (embed P t2 (snd (embed P t1 w))))) \<le> length (requests w) + 1"
    if a: "fst (embed P t1 w) = Some (Inr vec)" and b: "take 200 t1 = take 200 t2"
  proof -
    have "embed P t1 w = (Some (Inr vec), snd (embed P t1 w))" using a by (simp add: prod_eq_iff)
    then have "embeddingCache (snd (embed P t1 w)) (take 200 t2) = Some vec"
      using embed_stores b by metis
    then have "embed P t2 (snd (embed P t1 w)) = (Some (Inr vec), snd (embed P t1 w))"
      by (rule embed_hit)
    then show ?thesis using embed_one_request [of P t1 w] by simp
  qed
  then show ?thesis
    using embed_hit [of w t1 cached P] embed_stores [of P t1 w vec w']
      embed_failure_stores_nothing [of P t1 w e] by blast
qed

theorem embed_memoized_witness:
  "fst (embed provider_up (replicate 200 CHR ''a'' @ ''x'') (init render_1e21 example_corpus))
     = Some (Inr [Finite 0, Finite 1]) \<and>
   take 200 (replicate 200 CHR ''a'' @ ''x'') = take 200 (replicate 200 CHR ''a'' @ ''y'') \<and>
   fst (embed provider_up (replicate 200 CHR ''a'' @ ''y'')
          (snd (embed provider_up (replicate 200 CHR ''a'' @ ''x'') (init render_1e21 example_corpus))))
     = Some (Inr [Finite 0, Finite 1]) \<and>
   requests (snd (embed provider_up (replicate 200 CHR ''a'' @ ''y'')
          (snd (embed provider_up (replicate 200 CHR ''a'' @ ''x'') (init render_1e21 example_corpus)))))
     = [replicate 200 CHR ''a'' @ ''x'']"
proof -
  have a: "fst (embed provider_up (replicate 200 CHR ''a'' @ ''x'') (init render_1e21 example_corpus))
             = Some (Inr [Finite 0, Finite 1])"
    by (simp add: embed_def embed_start_def slice0_200 init_example provider_up_def)
  have r: "requests (snd (embed provider_up (replicate 200 CHR ''a'' @ ''x'') (init render_1e21 example_corpus)))
           = [replicate 200 CHR ''a'' @ ''x'']"
    by (simp add: embed_def embed_start_def slice0_200 init_example provider_up_def)
  have b: "take 200 (replicate 200 CHR ''a'' @ ''x'') = take 200 (replicate 200 CHR ''a'' @ ''y'')"
    by simp
  from embed_memoized [of "init render_1e21 example_corpus" "replicate 200 CHR ''a'' @ ''x''" "[]" provider_up
      "[Finite 0, Finite 1]" "init render_1e21 example_corpus" FetchFailed "replicate 200 CHR ''a'' @ ''y''"] a b
  have "embed provider_up (replicate 200 CHR ''a'' @ ''y'')
          (snd (embed provider_up (replicate 200 CHR ''a'' @ ''x'') (init render_1e21 example_corpus)))
        = (Some (Inr [Finite 0, Finite 1]),
           snd (embed provider_up (replicate 200 CHR ''a'' @ ''x'') (init render_1e21 example_corpus)))"
    by blast
  then show ?thesis using a b r by simp
qed

theorem embed_two_requests_counterexample:
  "take 200 ''a'' = take 200 ''a'' \<and>
   fst (embed provider_flaky ''a'' (init render_1e21 [])) = Some (Inl (OllamaEmbedFailed 500 ''busy'')) \<and>
   requests (snd (embed provider_flaky ''a'' (snd (embed provider_flaky ''a'' (init render_1e21 [])))))
     = [''a'', ''a'']"
  by (simp add: embed_def embed_start_def slice0_200 init_def build_verses_def provider_flaky_def)

text \<open>
  C5 (amended).  The corpus index holds one record per line of every group, in input
  order (group order, then line order within the group); a group without content
  contributes nothing, and nothing fails.  The record of the line at 0-based position
  \<open>i\<close> of a group carries the number and the name of the group, the line as its text,
  and \<open>ayahNumber = i + 1\<close>; its \<open>ayahId\<close> is the number of the group as JavaScript
  prints it, a colon, and \<open>i + 1\<close>, which is \<open>"<number>:<i + 1>"\<close> in decimal digits
  when the number of the group is a safe integer.  In a corpus whose groups have safe
  integers for numbers, the ids are pairwise distinct exactly when the groups that have
  lines carry pairwise distinct numbers.
\<close>

theorem build_verses_index:
  "length (build_verses render gs) = (\<Sum>g\<leftarrow>gs. length (content_or_empty g)) \<and>
   (\<forall>j<length gs. \<forall>i<length (content_or_empty (gs ! j)).
      surahNumber (build_verses render gs ! (offset gs j + i)) = number (gs ! j) \<and>
      surahName (build_verses render gs ! (offset gs j + i)) = name (gs ! j) \<and>
      ayahNumber (build_verses render gs ! (offset gs j + i)) = int i + 1 \<and>
      text' (build_verses render gs ! (offset gs j + i)) = content_or_empty (gs ! j) ! i \<and>
      ayahId (build_verses render gs ! (offset gs j + i)) =
        number_toString render (number (gs ! j)) @ '':'' @ show_int (int i + 1) \<and>
      (isSafeInteger (number (gs ! j)) \<longrightarrow>
         ayahId (build_verses render gs ! (offset gs j + i)) =
           show_int (number (gs ! j)) @ '':'' @ show_int (int i + 1))) \<and>
   (content g = None \<longrightarrow> content_or_empty g = [] \<and>
      build_verses render (gs @ g # hs) = build_verses render (gs @ hs)) \<and>
   ((\<forall>g\<in>set gs. isSafeInteger (number g)) \<longrightarrow>
      (distinct (map ayahId (build_verses render gs)) \<longleftrightarrow>
       distinct (map number (filter has_content gs))))"
proof -
  have "content g = None \<Longrightarrow> surah_verses render g = []"
    by (simp add: surah_verses_def content_or_empty_def)
  then have "content g = None \<Longrightarrow> build_verses render (gs @ g # hs) = build_verses render (gs @ hs)"
    by (simp add: build_verses_concat)
  moreover have "content g = None \<Longrightarrow> content_or_empty g = []"
    by (simp add: content_or_empty_def)
  ultimately show ?thesis
    using length_build_verses [of render gs] nth_build_verses [of _ gs _ render]
      distinct_ids_safe [of gs render]
    by (simp add: make_verse_def number_toString_safe)
qed

theorem build_verses_index_witness:
  "build_verses render_1e21 example_corpus = [verse_1_1, verse_1_2, verse_3_1] \<and>
   length (build_verses render_1e21 example_corpus) = 3 \<and>
   isSafeInteger (number (example_corpus ! 2)) \<and>
   build_verses render_1e21 example_corpus ! 2 =
     \<lparr>ayahId = ''3:1'', surahNumber = 3, surahName = ''C'', ayahNumber = 1, text' = ''Stars''\<rparr> \<and>
   list_all (\<lambda>g. isSafeInteger (number g)) example_corpus \<and>
   distinct (map number (filter has_content example_corpus)) \<and>
   distinct (map ayahId (build_verses render_1e21 example_corpus)) \<and>
   \<not> isSafeInteger (number (huge_corpus ! 0)) \<and>
   ayahId (build_verses render_1e21 huge_corpus ! 0) = ''1e+21:1''"
proof -
  note th = build_verses_index [of render_1e21 example_corpus "example_corpus ! 1" "[]"]
  have s: "\<forall>g\<in>set example_corpus. isSafeInteger (number g)"
    using safe_examples(1) by (simp only: list_all_iff)
  from th s safe_examples(4) have d: "distinct (map ayahId (build_verses render_1e21 example_corpus))"
    by blast
  have u: "\<not> isSafeInteger (number (huge_corpus ! 0))"
    by (simp add: huge_corpus_def isSafeInteger_def)
  from build_verses_index [of render_1e21 huge_corpus "example_corpus ! 1" "[]"]
  have "ayahId (build_verses render_1e21 huge_corpus ! (offset huge_corpus 0 + 0)) =
        number_toString render_1e21 (number (huge_corpus ! 0)) @ '':'' @ show_int (int 0 + 1)"
    by (simp add: huge_corpus_def content_or_empty_def)
  also have "offset huge_corpus 0 + 0 = 0" by (simp add: offset_def)
  also have "number_toString render_1e21 (number (huge_corpus ! 0)) = ''1e+21''"
    using u by (simp add: number_toString_def render_1e21_def)
  also have "show_int (int 0 + 1) = ''1''" by code_simp
  finally have h: "ayahId (build_verses render_1e21 huge_corpus ! 0) = ''1e+21:1''" by simp
  show ?thesis using safe_examples d u h
    by (simp add: build_example_corpus verse_3_1_def)
qed

theorem build_verses_index_counterexample:
  "list_all (\<lambda>g. isSafeInteger (number g)) twin_corpus \<and>
   map ayahNumber (build_verses render_1e21 twin_corpus) = [1, 1] \<and>
   map ayahId (build_verses render_1e21 twin_corpus) = [''1:1'', ''1:1''] \<and>
   \<not> distinct (map ayahId (build_verses render_1e21 twin_corpus))"
  by (simp add: build_twin_corpus safe_examples)

text \<open>
  C6 (amended).  \<open>cosineSimilarity a b\<close> is \<open>0\<close> whenever the lengths differ, and
  whenever one squared norm, as the loop computes it in double arithmetic, is exactly
  zero and the other is finite; nothing is thrown.  For \<open>cosineSimilarity v v\<close> let
  \<open>N\<close> be the computed squared norm of \<open>v\<close>, which is zero, a positive double,
  Infinity or NaN.  The result is \<open>0\<close> when \<open>N\<close> is zero (the zero vector, or
  components whose squares underflow), a double within \<open>pow2 (- 50)\<close> of \<open>1\<close> when
  \<open>N\<close> is positive and finite (rounding can make it differ from \<open>1\<close>), and NaN when
  \<open>N\<close> is Infinity (the squares overflow) or NaN.
\<close>

theorem cosineSimilarity_guards:
  "(length a \<noteq> length b \<longrightarrow> cosineSimilarity a b = Finite 0) \<and>
   (length a = length b \<longrightarrow>
      snd (cosine_loop a b (Finite 0, Finite 0, Finite 0)) = (squared_norm a, squared_norm b)) \<and>
   (length a = length b \<longrightarrow> squared_norm a = Finite 0 \<longrightarrow> squared_norm b = Finite nb \<longrightarrow>
      cosineSimilarity a b = Finite 0 \<and> cosineSimilarity b a = Finite 0) \<and>
   norm_acc (squared_norm v) \<and>
   (squared_norm v = Finite 0 \<longrightarrow> cosineSimilarity v v = Finite 0) \<and>
   (squared_norm v = Finite n \<longrightarrow> 0 < n \<longrightarrow>
      (\<exists>r. cosineSimilarity v v = Finite r \<and> \<bar>r - 1\<bar> \<le> pow2 (- 50))) \<and>
   (squared_norm v = PosInfinity \<or> squared_norm v = NaN \<longrightarrow> cosineSimilarity v v = NaN)"
  using cosineSimilarity_zero_norm [of a b nb] cosine_self [of v n] cosine_self_zero [of v]
    cosine_self_NaN [of v] norm_acc_squared_norm [of v]
    cosine_loop_norms [of a b "Finite 0" "Finite 0" "Finite 0"]
  by (simp add: cosineSimilarity_def squared_norm_def)

theorem cosineSimilarity_guards_witness:
  "squared_norm [Finite 0, Finite 0] = Finite 0 \<and>
   squared_norm [Finite 1, Finite 1] = Finite 2 \<and>
   cosineSimilarity [Finite 0, Finite 0] [Finite 1, Finite 1] = Finite 0 \<and>
   cosineSimilarity [Finite 1, Finite 1] [Finite 0, Finite 0] = Finite 0 \<and>
   cosineSimilarity [Finite 1] [Finite 1, Finite 1] = Finite 0 \<and>
   cosineSimilarity [Finite 0, Finite 0] [Finite 0, Finite 0] = Finite 0 \<and>
   cosineSimilarity [Finite 1, Finite 1] [Finite 1, Finite 1] = Finite (4503599627370495 / 2 ^ 52) \<and>
   \<bar>4503599627370495 / 2 ^ 52 - 1\<bar> \<le> pow2 (- 50)"
proof -
  have n: "squared_norm [Finite 0, Finite 0] = Finite 0" "squared_norm [Finite 1, Finite 1] = Finite 2"
    by (simp_all add: squared_norm_def round64_0 round64_1 round64_2)
  note th = cosineSimilarity_guards [of "[Finite 0, Finite 0]" "[Finite 1, Finite 1]" 2]
  from th [of "[Finite 1, Finite 1]" 2] n
  have a: "cosineSimilarity [Finite 0, Finite 0] [Finite 1, Finite 1] = Finite 0"
    "cosineSimilarity [Finite 1, Finite 1] [Finite 0, Finite 0] = Finite 0"
    by simp_all
  from th [of "[Finite 1, Finite 1]" 2] n
  obtain r where r: "cosineSimilarity [Finite 1, Finite 1] [Finite 1, Finite 1] = Finite r"
    "\<bar>r - 1\<bar> \<le> pow2 (- 50)"
    by auto
  then have b: "\<bar>4503599627370495 / 2 ^ 52 - 1\<bar> \<le> pow2 (- 50)" using cosine_ones by simp
  from th [of "[Finite 0, Finite 0]" 0] n
  have c: "cosineSimilarity [Finite 0, Finite 0] [Finite 0, Finite 0] = Finite 0" by simp
  from cosineSimilarity_guards [of "[Finite 1]" "[Finite 1, Finite 1]" 2 "[Finite 1]" 1]
  have d: "cosineSimilarity [Finite 1] [Finite 1, Finite 1] = Finite 0" by simp
  show ?thesis using n a b c d cosine_ones by simp
qed

theorem cosineSimilarity_self_counterexample:
  "cosineSimilarity [Finite 1, Finite 1] [Finite 1, Finite 1] = Finite (4503599627370495 / 2 ^ 52) \<and>
   Finite (4503599627370495 / 2 ^ 52) \<noteq> Finite 1 \<and>
   Finite (pow2 (- 600)) \<noteq> Finite 0 \<and>
   cosineSimilarity [Finite (pow2 (- 600))] [Finite (pow2 (- 600))] = Finite 0 \<and>
   Finite (pow2 600) \<noteq> Finite 0 \<and>
   cosineSimilarity [Finite (pow2 600)] [Finite (pow2 600)] = NaN \<and>
   squared_norm [Finite 0] = Finite 0 \<and>
   squared_norm [Finite (pow2 600)] = PosInfinity \<and>
   cosineSimilarity [Finite 0] [Finite (pow2 600)] = NaN"
  using cosine_ones cosine_underflow pow2_pos [of "- 600"]
  by (simp add: cosineSimilarity_def squared_norm_def eval_number)

text \<open>
  C7.  The semantic path works on the first 80 records only: every record of a result
  it produces is one of them, and the only texts sent to the provider during a call
  are the trimmed query and texts of those 80 records.
\<close>

theorem pool_is_prefix:
  "(trim query \<noteq> [] \<longrightarrow>
    fst (semantic_path P arrival rank (trim query) topK (take 80 (verses w)) w) = Some (Inr results) \<longrightarrow>
    fst (semanticSearch P arrival rank query topK w) = Some (Inr results) \<and>
    verse ` set results \<subseteq> set (take 80 (verses w))) \<and>
   (\<exists>new. requests (snd (semanticSearch P arrival rank query topK w)) = requests w @ new \<and>
          set new \<subseteq> insert (trim query) (text' ` set (take 80 (verses w))))"
proof -
  have "\<exists>new. requests (snd (semanticSearch P arrival rank query topK w)) = requests w @ new \<and>
          set new \<subseteq> insert (trim query) (text' ` set (take 80 (verses w)))"
  proof (cases "trim query = []")
    case True
    then have "requests (snd (semanticSearch P arrival rank query topK w)) = requests w @ []"
      by (simp add: semanticSearch_snd)
    moreover have "set [] \<subseteq> insert (trim query) (text' ` set (take 80 (verses w)))" by simp
    ultimately show ?thesis by (intro exI [of _ "[]"]) simp
  next
    case False
    then show ?thesis
      using semantic_path_requests [of P arrival rank "trim query" topK "take 80 (verses w)" w]
      by (simp add: semanticSearch_snd)
  qed
  then show ?thesis
    using semantic_path_success(1) [of P arrival rank "trim query" topK "take 80 (verses w)" w results]
    by (simp add: semanticSearch_fst)
qed

theorem pool_is_prefix_witness:
  "length (verses (init render_1e21 long_corpus)) = 81 \<and>
   text' (verses (init render_1e21 long_corpus) ! 80) = ''the sun rises'' \<and>
   outcome (InFlight ''the sun rises'' (provider_up 0 ''the sun rises'')) = Some (Inr [Finite 1, Finite 0]) \<and>
   cosineSimilarity [Finite 1, Finite 0] [Finite 1, Finite 0] = Finite 1 \<and>
   trim ''sun'' \<noteq> [] \<and>
   fst (semantic_path provider_up id id (trim ''sun'') 1 (take 80 (verses (init render_1e21 long_corpus)))
          (init render_1e21 long_corpus))
     = Some (Inr [\<lparr>verse = \<lparr>ayahId = ''1:1'', surahNumber = 1, surahName = ''A'', ayahNumber = 1,
                          text' = ''night''\<rparr>, score = Finite 0\<rparr>]) \<and>
   fst (semanticSearch provider_up id id ''sun'' 1 (init render_1e21 long_corpus))
     = Some (Inr [\<lparr>verse = \<lparr>ayahId = ''1:1'', surahNumber = 1, surahName = ''A'', ayahNumber = 1,
                          text' = ''night''\<rparr>, score = Finite 0\<rparr>]) \<and>
   requests (snd (semanticSearch provider_up id id ''sun'' 1 (init render_1e21 long_corpus)))
     = ''sun'' # replicate 80 ''night''"
proof -
  have t: "trim ''sun'' = ''sun''" by (simp add: trim_examples)
  have p: "fst (semantic_path provider_up id id (trim ''sun'') 1 (take 80 (verses (init render_1e21 long_corpus)))
          (init render_1e21 long_corpus))
     = Some (Inr [\<lparr>verse = \<lparr>ayahId = ''1:1'', surahNumber = 1, surahName = ''A'', ayahNumber = 1,
                          text' = ''night''\<rparr>, score = Finite 0\<rparr>])"
    unfolding t by (simp only: semantic_path_long night_0)
  have r: "requests (snd (semanticSearch provider_up id id ''sun'' 1 (init render_1e21 long_corpus)))
     = ''sun'' # replicate 80 ''night''"
    by (simp add: semanticSearch_snd t requests_long)
  have l: "length (verses (init render_1e21 long_corpus)) = 81"
    "text' (verses (init render_1e21 long_corpus) ! 80) = ''the sun rises''"
    by (simp_all add: init_long nth_append)
  have o: "outcome (InFlight ''the sun rises'' (provider_up 0 ''the sun rises''))
             = Some (Inr [Finite 1, Finite 0])"
    by (simp add: provider_up_def)
  from pool_is_prefix [of "''sun''" provider_up id id 1 "init render_1e21 long_corpus"
      "[\<lparr>verse = \<lparr>ayahId = ''1:1'', surahNumber = 1, surahName = ''A'', ayahNumber = 1,
                          text' = ''night''\<rparr>, score = Finite 0\<rparr>]"] p
  have "fst (semanticSearch provider_up id id ''sun'' 1 (init render_1e21 long_corpus))
     = Some (Inr [\<lparr>verse = \<lparr>ayahId = ''1:1'', surahNumber = 1, surahName = ''A'', ayahNumber = 1,
                          text' = ''night''\<rparr>, score = Finite 0\<rparr>])"
    by (simp add: t)
  then show ?thesis using p r l o cosine_same_axis by (simp add: t)
qed

text \<open>
  C8 (amended).  When the semantic path succeeds, the result is the scored pool, sorted by
  the \<^verbatim>\<open>Array.prototype.sort\<close> of the engine with the comparator
  \<open>b.score - a.score\<close> and cut by \<open>slice(0, topK)\<close>; it is the same for every order
  in which the concurrent calls complete.  When no score is NaN the result is in
  non-increasing order of score, records of equal score in the order of the pool,
  whatever the engine.  A score that is NaN makes the comparator answer NaN, and
  non-increasing order is no longer guaranteed; where the comparison is then not
  consistent, the order of the sorted pool is the one the engine happens to produce.  The
  result has \<open>min(topK, pool size)\<close> elements when \<open>topK\<close> is not negative, and for
  a negative \<open>topK\<close> it is the sorted pool without its last \<open>-topK\<close> elements.
\<close>

theorem semantic_result_sorted:
  assumes "trim query \<noteq> []"
    and "fst (scored_pool P arrival (trim query) (take 80 (verses w)) w) = Some (Inr scored)"
    and "fst (semanticSearch P arrival rank query topK w) = Some (Inr results)"
  shows "results = slice0 (array_sort rank (\<lambda>a b. fsub (score b) (score a)) scored) topK \<and>
         ((\<forall>r\<in>set scored. score r \<noteq> NaN) \<longrightarrow>
            results = slice0 (stable_sort (\<lambda>a b. fsub (score b) (score a)) scored) topK \<and>
            sorted_wrt (\<lambda>a b. num_le (score b) (score a)) results \<and>
            (\<forall>s. filter (\<lambda>r. score r = s) (stable_sort (\<lambda>a b. fsub (score b) (score a)) scored)
                   = filter (\<lambda>r. score r = s) scored)) \<and>
         (\<not> consistent_comparator (\<lambda>a b. fsub (score b) (score a)) scored \<longrightarrow>
            results = slice0 (rearranged rank scored) topK) \<and>
         int (length results) =
           (if topK < 0 then max 0 (int (length (take 80 (verses w))) + topK)
            else min topK (int (length (take 80 (verses w))))) \<and>
         (\<forall>arrival'. fst (semanticSearch P arrival' rank query topK w) = Some (Inr results))"
proof -
  have p: "fst (semantic_path P arrival rank (trim query) topK (take 80 (verses w)) w)
           = Some (Inr (slice0 (sort_scored rank scored) topK))"
    using assms(2) by (simp add: semantic_path_fst)
  then have r: "results = slice0 (sort_scored rank scored) topK"
    using assms(1,3) by (simp add: semanticSearch_fst)
  have r': "results = slice0 (array_sort rank (\<lambda>a b. fsub (score b) (score a)) scored) topK"
    using r by (simp add: sort_scored_def)
  have n: "results = slice0 (stable_sort (\<lambda>a b. fsub (score b) (score a)) scored) topK \<and>
        sorted_wrt (\<lambda>a b. num_le (score b) (score a)) results \<and>
        (\<forall>s. filter (\<lambda>r. score r = s) (stable_sort (\<lambda>a b. fsub (score b) (score a)) scored)
                   = filter (\<lambda>r. score r = s) scored)"
    if "\<forall>r\<in>set scored. score r \<noteq> NaN"
  proof -
    have d: "\<forall>r\<in>set scored. is_double (score r) \<and> score r \<noteq> NaN"
      using that scored_pool_shape(2) [OF assms(2)] by simp
    have "sorted_wrt (\<lambda>a b. num_le (score b) (score a)) results"
      unfolding r using d by (intro sorted_slice0 sorted_sort_scored)
    moreover have "results = slice0 (stable_sort (\<lambda>a b. fsub (score b) (score a)) scored) topK"
      using r sort_scored_stable [OF d] by simp
    ultimately show ?thesis using stable_sort_stable [of score _ scored] by blast
  qed
  have c: "results = slice0 (rearranged rank scored) topK"
    if "\<not> consistent_comparator (\<lambda>a b. fsub (score b) (score a)) scored"
    using r' that by (simp add: array_sort_def)
  have l: "int (length results) =
           (if topK < 0 then max 0 (int (length (take 80 (verses w))) + topK)
            else min topK (int (length (take 80 (verses w)))))"
    using r semantic_path_success(2) [OF p] by simp
  have a: "\<forall>arrival'. fst (semanticSearch P arrival' rank query topK w) = Some (Inr results)"
    using assms(3) semanticSearch_arrival [of P _ rank query topK w arrival] by simp
  show ?thesis using r' n c l a by blast
qed

theorem semantic_result_sorted_witness:
  "trim ''moon'' \<noteq> [] \<and>
   fst (scored_pool provider_up id (trim ''moon'') (take 80 (verses (init render_1e21 example_corpus)))
          (init render_1e21 example_corpus))
     = Some (Inr [\<lparr>verse = verse_1_1, score = Finite 0\<rparr>, \<lparr>verse = verse_1_2, score = Finite 1\<rparr>,
            \<lparr>verse = verse_3_1, score = Finite 1\<rparr>]) \<and>
   fst (semanticSearch provider_up id id ''moon'' 2 (init render_1e21 example_corpus))
     = Some (Inr [\<lparr>verse = verse_1_2, score = Finite 1\<rparr>, \<lparr>verse = verse_3_1, score = Finite 1\<rparr>]) \<and>
   Finite 0 \<noteq> NaN \<and> Finite 1 \<noteq> NaN \<and>
   fst (semanticSearch provider_up (\<lambda>i. 2 - i) id ''moon'' 2 (init render_1e21 example_corpus))
     = Some (Inr [\<lparr>verse = verse_1_2, score = Finite 1\<rparr>, \<lparr>verse = verse_3_1, score = Finite 1\<rparr>]) \<and>
   fst (semanticSearch provider_up id (\<lambda>i. 2 - i) ''moon'' 2 (init render_1e21 example_corpus))
     = Some (Inr [\<lparr>verse = verse_1_2, score = Finite 1\<rparr>, \<lparr>verse = verse_3_1, score = Finite 1\<rparr>]) \<and>
   sorted_wrt (\<lambda>a b. num_le (score b) (score a))
     [\<lparr>verse = verse_1_2, score = Finite 1\<rparr>, \<lparr>verse = verse_3_1, score = Finite 1\<rparr>] \<and>
   trim ''sun'' \<noteq> [] \<and>
   fst (scored_pool provider_overflowing id (trim ''sun'') (take 80 (verses (init render_1e21 example_corpus)))
          (init render_1e21 example_corpus))
     = Some (Inr [\<lparr>verse = verse_1_1, score = Finite 0\<rparr>, \<lparr>verse = verse_1_2, score = NaN\<rparr>,
            \<lparr>verse = verse_3_1, score = Finite 1\<rparr>]) \<and>
   \<not> consistent_comparator (\<lambda>a b. fsub (score b) (score a))
        [\<lparr>verse = verse_1_1, score = Finite 0\<rparr>, \<lparr>verse = verse_1_2, score = NaN\<rparr>,
         \<lparr>verse = verse_3_1, score = Finite 1\<rparr>] \<and>
   fst (semanticSearch provider_overflowing id (\<lambda>i. 2 - i) ''sun'' 2 (init render_1e21 example_corpus))
     = Some (Inr (slice0 (rearranged (\<lambda>i. 2 - i)
          [\<lparr>verse = verse_1_1, score = Finite 0\<rparr>, \<lparr>verse = verse_1_2, score = NaN\<rparr>,
           \<lparr>verse = verse_3_1, score = Finite 1\<rparr>]) 2)) \<and>
   fst (semanticSearch provider_overflowing id (\<lambda>i. 2 - i) ''sun'' 2 (init render_1e21 example_corpus))
     = Some (Inr [\<lparr>verse = verse_3_1, score = Finite 1\<rparr>, \<lparr>verse = verse_1_2, score = NaN\<rparr>])"
proof -
  have t: "trim ''moon'' \<noteq> []" "trim ''sun'' \<noteq> []" by (simp_all add: trim_examples)
  have p: "fst (scored_pool provider_up id (trim ''moon'') (take 80 (verses (init render_1e21 example_corpus)))
          (init render_1e21 example_corpus))
     = Some (Inr [\<lparr>verse = verse_1_1, score = Finite 0\<rparr>, \<lparr>verse = verse_1_2, score = Finite 1\<rparr>,
            \<lparr>verse = verse_3_1, score = Finite 1\<rparr>])"
    by (simp add: trim_examples scored_pool_up_moon)
  have r: "fst (semanticSearch provider_up id rank ''moon'' 2 (init render_1e21 example_corpus))
     = Some (Inr [\<lparr>verse = verse_1_2, score = Finite 1\<rparr>, \<lparr>verse = verse_3_1, score = Finite 1\<rparr>])" for rank
    by (simp add: semanticSearch_fst semantic_path_fst trim_examples scored_pool_up_moon
        sort_scored_examples slice0_def)
  have p': "fst (scored_pool provider_overflowing id (trim ''sun'') (take 80 (verses (init render_1e21 example_corpus)))
          (init render_1e21 example_corpus))
     = Some (Inr [\<lparr>verse = verse_1_1, score = Finite 0\<rparr>, \<lparr>verse = verse_1_2, score = NaN\<rparr>,
            \<lparr>verse = verse_3_1, score = Finite 1\<rparr>])"
    by (simp add: trim_examples scored_pool_overflowing)
  have r': "fst (semanticSearch provider_overflowing id (\<lambda>i. 2 - i) ''sun'' 2 (init render_1e21 example_corpus))
     = Some (Inr [\<lparr>verse = verse_3_1, score = Finite 1\<rparr>, \<lparr>verse = verse_1_2, score = NaN\<rparr>])"
    by (simp add: semanticSearch_fst semantic_path_fst trim_examples scored_pool_overflowing
        sort_scored_engine slice0_def)
  from semantic_result_sorted [OF t(2) p' r'] sort_scored_engine(1)
  have e: "[\<lparr>verse = verse_3_1, score = Finite 1\<rparr>, \<lparr>verse = verse_1_2, score = NaN\<rparr>]
     = slice0 (rearranged (\<lambda>i. 2 - i)
          [\<lparr>verse = verse_1_1, score = Finite 0\<rparr>, \<lparr>verse = verse_1_2, score = NaN\<rparr>,
           \<lparr>verse = verse_3_1, score = Finite 1\<rparr>]) 2"
    by blast
  from semantic_result_sorted [OF t(1) p r [of id]] show ?thesis
    using t p r p' r' sort_scored_engine(1) e [symmetric] by simp
qed

theorem semantic_result_sorted_counterexample:
  "fst (scored_pool provider_up id (trim ''sun'') (take 80 (verses (init render_1e21 example_corpus)))
          (init render_1e21 example_corpus))
     = Some (Inr [\<lparr>verse = verse_1_1, score = Finite 1\<rparr>, \<lparr>verse = verse_1_2, score = Finite 0\<rparr>,
            \<lparr>verse = verse_3_1, score = Finite 0\<rparr>]) \<and>
   fst (semanticSearch provider_up id id ''sun'' (- 1) (init render_1e21 example_corpus))
     = Some (Inr [\<lparr>verse = verse_1_1, score = Finite 1\<rparr>, \<lparr>verse = verse_1_2, score = Finite 0\<rparr>]) \<and>
   \<not> int (length [\<lparr>verse = verse_1_1, score = Finite 1\<rparr>, \<lparr>verse = verse_1_2, score = Finite 0\<rparr>]) \<le> - 1 \<and>
   fst (scored_pool provider_huge id (trim ''sun'') (take 80 (verses (init render_1e21 example_corpus)))
          (init render_1e21 example_corpus))
     = Some (Inr [\<lparr>verse = verse_1_1, score = NaN\<rparr>, \<lparr>verse = verse_1_2, score = Finite 0\<rparr>,
            \<lparr>verse = verse_3_1, score = Finite 0\<rparr>]) \<and>
   fst (semanticSearch provider_huge id id ''sun'' 2 (init render_1e21 example_corpus))
     = Some (Inr [\<lparr>verse = verse_1_1, score = NaN\<rparr>, \<lparr>verse = verse_1_2, score = Finite 0\<rparr>]) \<and>
   \<not> num_le (score \<lparr>verse = verse_1_2, score = Finite 0\<rparr>)
            (score \<lparr>verse = verse_1_1, score = NaN\<rparr>) \<and>
   fst (scored_pool provider_overflowing id (trim ''sun'') (take 80 (verses (init render_1e21 example_corpus)))
          (init render_1e21 example_corpus))
     = Some (Inr [\<lparr>verse = verse_1_1, score = Finite 0\<rparr>, \<lparr>verse = verse_1_2, score = NaN\<rparr>,
            \<lparr>verse = verse_3_1, score = Finite 1\<rparr>]) \<and>
   fst (semanticSearch provider_overflowing id id ''sun'' 3 (init render_1e21 example_corpus))
     = Some (Inr [\<lparr>verse = verse_1_1, score = Finite 0\<rparr>, \<lparr>verse = verse_1_2, score = NaN\<rparr>,
            \<lparr>verse = verse_3_1, score = Finite 1\<rparr>]) \<and>
   \<not> num_le (score \<lparr>verse = verse_3_1, score = Finite 1\<rparr>)
            (score \<lparr>verse = verse_1_1, score = Finite 0\<rparr>)"
  by (simp add: semanticSearch_fst semantic_path_fst trim_examples scored_pool_up_sun
      scored_pool_huge scored_pool_overflowing sort_scored_examples sort_scored_NaN
      sort_scored_engine slice0_def)

text \<open>
  C9.  \<open>getContextForQuery q k\<close> returns exactly the records of \<open>semanticSearch q k\<close>
  with the score dropped, in the same order and of the same length, and has the same
  effect on the world; it is pending exactly when \<open>semanticSearch q k\<close> is, and never
  throws.
\<close>

theorem getContextForQuery_projects:
  "fst (getContextForQuery P arrival rank q k w) =
     (case fst (semanticSearch P arrival rank q k w) of
        None \<Rightarrow> None
      | Some (Inl e) \<Rightarrow> Some (Inl e)
      | Some (Inr results) \<Rightarrow> Some (Inr (map verse results))) \<and>
   fst (semanticSearch P arrival rank q k w) \<noteq> Some (Inl e) \<and>
   fst (getContextForQuery P arrival rank q k w) \<noteq> Some (Inl e) \<and>
   snd (getContextForQuery P arrival rank q k w) = snd (semanticSearch P arrival rank q k w)"
proof -
  obtain r w' where s: "semanticSearch P arrival rank q k w = (r, w')"
    by (cases "semanticSearch P arrival rank q k w")
  have "fst (semanticSearch P arrival rank q k w) = None \<or>
        (\<exists>results. fst (semanticSearch P arrival rank q k w) = Some (Inr results))"
    by (simp add: semanticSearch_fst split: option.splits sum.splits)
  then have "r = None \<or> (\<exists>results. r = Some (Inr results))" using s by simp
  then show ?thesis using s by (auto simp: getContextForQuery_def)
qed

theorem getContextForQuery_projects_witness:
  "fst (semanticSearch provider_up id id ''sun'' 2 (init render_1e21 example_corpus))
     = Some (Inr [\<lparr>verse = verse_1_1, score = Finite 1\<rparr>, \<lparr>verse = verse_1_2, score = Finite 0\<rparr>]) \<and>
   fst (getContextForQuery provider_up id id ''sun'' 2 (init render_1e21 example_corpus))
     = Some (Inr [verse_1_1, verse_1_2]) \<and>
   fst (semanticSearch provider_down id id ''moon'' 5 (init render_1e21 example_corpus))
     = Some (Inr [\<lparr>verse = verse_1_2, score = round64 (9 / 10)\<rparr>]) \<and>
   fst (getContextForQuery provider_down id id ''moon'' 5 (init render_1e21 example_corpus))
     = Some (Inr [verse_1_2]) \<and>
   fst (semanticSearch provider_silent id id ''moon'' 5 (init render_1e21 example_corpus)) = None \<and>
   fst (getContextForQuery provider_silent id id ''moon'' 5 (init render_1e21 example_corpus)) = None"
proof -
  have a: "fst (semanticSearch provider_up id id ''sun'' 2 (init render_1e21 example_corpus))
     = Some (Inr [\<lparr>verse = verse_1_1, score = Finite 1\<rparr>, \<lparr>verse = verse_1_2, score = Finite 0\<rparr>])"
    by (simp add: semanticSearch_fst trim_examples semantic_path_up slice0_def)
  have b: "fst (semanticSearch provider_down id id ''moon'' 5 (init render_1e21 example_corpus))
     = Some (Inr [\<lparr>verse = verse_1_2, score = round64 (9 / 10)\<rparr>])"
    by (simp add: semanticSearch_fst trim_examples semantic_path_down keyword_fallback_moon)
  have c: "fst (semanticSearch provider_silent id id ''moon'' 5 (init render_1e21 example_corpus)) = None"
    by (simp add: search_silent)
  show ?thesis
    using getContextForQuery_projects [of provider_up id id "''sun''" 2 "init render_1e21 example_corpus"]
      getContextForQuery_projects [of provider_down id id "''moon''" 5 "init render_1e21 example_corpus"]
      getContextForQuery_projects [of provider_silent id id "''moon''" 5 "init render_1e21 example_corpus"]
    by (simp add: a b c)
qed

text \<open>
  C10.  Every record in a result of \<open>semanticSearch\<close>, on either path, is an element
  of \<open>verses\<close>, and \<open>verses\<close> is the same after a call of \<open>semanticSearch\<close> or of
  \<open>getContextForQuery\<close> as before it.
\<close>

theorem results_are_verses:
  assumes "fst (semanticSearch P arrival rank query topK w) = Some (Inr results)"
  shows "(\<forall>r\<in>set results. verse r \<in> set (verses w)) \<and>
         verses (snd (semanticSearch P arrival rank query topK w)) = verses w \<and>
         verses (snd (getContextForQuery P arrival rank query topK w)) = verses w"
proof -
  have v: "verses (snd (semanticSearch P arrival rank query topK w)) = verses w"
    by (simp add: semanticSearch_snd semantic_path_verses)
  have g: "snd (getContextForQuery P arrival rank query topK w) = snd (semanticSearch P arrival rank query topK w)"
    by (simp add: getContextForQuery_def split: prod.splits option.splits sum.splits)
  have "verse ` set results \<subseteq> set (verses w)"
  proof (cases "trim query = []")
    case True
    with assms show ?thesis by (simp add: semanticSearch_fst)
  next
    case False
    show ?thesis
    proof (cases "fst (semantic_path P arrival rank (trim query) topK (take 80 (verses w)) w)")
      case None
      with assms False show ?thesis by (simp add: semanticSearch_fst)
    next
      case (Some r)
      show ?thesis
      proof (cases r)
        case (Inl e)
        with assms False Some have "results = keyword_fallback (trim query) topK w"
          by (simp add: semanticSearch_fst)
        then show ?thesis by (simp add: set_keyword_fallback)
      next
        case (Inr rs)
        with assms False Some have "results = rs" by (simp add: semanticSearch_fst)
        with Inr Some have "verse ` set results \<subseteq> set (take 80 (verses w))"
          using semantic_path_success(1) by blast
        then show ?thesis using set_take_subset [of 80 "verses w"] by blast
      qed
    qed
  qed
  then show ?thesis using v g by auto
qed

theorem results_are_verses_witness:
  "fst (semanticSearch provider_up id id ''sun'' 2 (init render_1e21 example_corpus))
     = Some (Inr [\<lparr>verse = verse_1_1, score = Finite 1\<rparr>, \<lparr>verse = verse_1_2, score = Finite 0\<rparr>]) \<and>
   verse_1_1 \<in> set (verses (init render_1e21 example_corpus)) \<and>
   verse_1_2 \<in> set (verses (init render_1e21 example_corpus)) \<and>
   verses (snd (semanticSearch provider_up id id ''sun'' 2 (init render_1e21 example_corpus)))
     = [verse_1_1, verse_1_2, verse_3_1]"
proof -
  have s: "fst (semanticSearch provider_up id id ''sun'' 2 (init render_1e21 example_corpus))
     = Some (Inr [\<lparr>verse = verse_1_1, score = Finite 1\<rparr>, \<lparr>verse = verse_1_2, score = Finite 0\<rparr>])"
    by (simp add: semanticSearch_fst trim_examples semantic_path_up slice0_def)
  show ?thesis
    using results_are_verses [OF s] s by (simp add: init_example)
qed

end
